theory Spec2Isabelle
  imports Main
begin

section \<open>Batch messages of the profile tester (web/profile.go)\<close>

subsection \<open>Errors, machine integers, options\<close>

text \<open>
  Every error value the file returns, and the run-time panic of an index out of range.
  \<open>ErrJSON\<close> is any failure of the JSON decoder, \<open>ErrFetch\<close> any failure of the
  subscription download, \<open>ErrPingOnly\<close> is \<open>errors.New(PingOnly)\<close>, \<open>ErrProbe\<close> and
  \<open>ErrDownload\<close> are the errors of the two measuring primitives.
\<close>

datatype error =
    ErrInvalidData
  | ErrSyntax
  | ErrRange
  | ErrJSON
  | ErrNotRetest
  | ErrFetch
  | ErrNoProfile
  | ErrPingOnly
  | ErrProbe
  | ErrDownload
  | PanicIndex

text \<open>Go's \<open>int\<close> and \<open>time.Duration\<close> are 64-bit signed; arithmetic wraps.\<close>

definition wrap64 :: "int \<Rightarrow> int" where
  "wrap64 x = (x + 2 ^ 63) mod 2 ^ 64 - 2 ^ 63"

definition in_int64 :: "int \<Rightarrow> bool" where
  "in_int64 x \<longleftrightarrow> - (2 ^ 63) \<le> x \<and> x < 2 ^ 63"

definition Second :: int where
  "Second = 1000000000"

definition ALLTEST :: int where
  "ALLTEST = 2"

definition RETEST :: int where
  "RETEST = 3"

definition SpeedOnly :: string where
  "SpeedOnly = ''speedonly''"

definition PingOnly :: string where
  "PingOnly = ''pingonly''"

record ProfileTestOptions =
  GroupName :: string
  SpeedTestMode :: string
  PingMethod :: string
  SortMethod :: string
  Concurrency :: int
  TestMode :: int
  TestIDs :: "int list"
  Timeout :: int
  Links :: "string list"

subsection \<open>strconv.Atoi, strings.Split, strings.SplitN\<close>

definition is_digit :: "char \<Rightarrow> bool" where
  "is_digit c \<longleftrightarrow> (48::nat) \<le> of_char c \<and> of_char c \<le> (57::nat)"

definition digit_val :: "char \<Rightarrow> int" where
  "digit_val c = int (of_char c) - 48"

text \<open>
  \<open>strconv.ParseUint\<close> in base 10 with 64 bits, as \<open>Atoi\<close> uses it: the characters are
  read from the left; one that is not a digit is a syntax error, and a value that leaves the
  unsigned range is a range error as soon as it does.
\<close>

fun parse_uint :: "int \<Rightarrow> string \<Rightarrow> error + int" where
  "parse_uint n [] = Inr n"
| "parse_uint n (c # cs) =
     (if \<not> is_digit c then Inl ErrSyntax
      else if n \<ge> (2 ^ 64 - 1) div 10 + 1 then Inl ErrRange
      else (let n1 = n * 10 + digit_val c
            in if n1 > 2 ^ 64 - 1 then Inl ErrRange else parse_uint n1 cs))"

text \<open>
  \<open>strconv.Atoi\<close>: an optional sign, then at least one decimal digit and nothing else;
  a value outside the signed 64-bit range is a range error.
\<close>

definition Atoi :: "string \<Rightarrow> error + int" where
  "Atoi s =
     (let neg = (s \<noteq> [] \<and> hd s = CHR ''-'');
          ds = (if s \<noteq> [] \<and> (hd s = CHR ''+'' \<or> hd s = CHR ''-'') then tl s else s)
      in if ds = [] then Inl ErrSyntax
         else (case parse_uint 0 ds of
                 Inl e \<Rightarrow> Inl e
               | Inr un \<Rightarrow>
                   if \<not> neg \<and> un \<ge> 2 ^ 63 then Inl ErrRange
                   else if neg \<and> un > 2 ^ 63 then Inl ErrRange
                   else Inr (if neg then - un else un)))"

text \<open>\<open>strings.Split(s, "^")\<close>: the fields between the carets, always at least one.\<close>

fun split_acc :: "string \<Rightarrow> string \<Rightarrow> string list" where
  "split_acc cur [] = [rev cur]"
| "split_acc cur (c # cs) =
     (if c = CHR ''^'' then rev cur # split_acc [] cs else split_acc (c # cur) cs)"

definition Split :: "string \<Rightarrow> string list" where
  "Split s = split_acc [] s"

text \<open>\<open>strings.SplitN(s, "^", 2)\<close>: cut at the first caret, if there is one.\<close>

definition SplitN2 :: "string \<Rightarrow> string list" where
  "SplitN2 s =
     (if CHR ''^'' \<in> set s
      then [takeWhile (\<lambda>c. c \<noteq> CHR ''^'') s, tl (dropWhile (\<lambda>c. c \<noteq> CHR ''^'') s)]
      else [s])"

subsection \<open>parseOptions and parseRetestMessage\<close>

definition default_group :: "string \<Rightarrow> string" where
  "default_group g = (if g = ''?empty?'' \<or> g = '''' then ''Default Group'' else g)"

definition parseOptions :: "string \<Rightarrow> error + ProfileTestOptions" where
  "parseOptions message =
     (let opts = Split message
      in if length opts < 7 then Inl ErrInvalidData
         else (let groupName = default_group (opts ! 0)
               in case Atoi (opts ! 5) of
                    Inl e \<Rightarrow> Inl e
                  | Inr c \<Rightarrow>
                      (let concurrency = (if c < 1 then 1 else c)
                       in case Atoi (opts ! 6) of
                            Inl e \<Rightarrow> Inl e
                          | Inr t \<Rightarrow>
                              (let timeout = (if t < 20 then 20 else t)
                               in Inr \<lparr>GroupName = groupName,
                                       SpeedTestMode = opts ! 1,
                                       PingMethod = opts ! 2,
                                       SortMethod = opts ! 3,
                                       Concurrency = concurrency,
                                       TestMode = ALLTEST,
                                       TestIDs = [],
                                       Timeout = wrap64 (timeout * Second),
                                       Links = []\<rparr>))))"

text \<open>
  \<open>json.Unmarshal\<close> belongs to the standard library: the decoder is a parameter that
  maps the message to the decoded record or to an error. The rest is the function's body:
  the timeout is turned into nanoseconds first and compared with the number 20 afterwards.
\<close>

definition parseRetestMessage ::
  "(string \<Rightarrow> error + ProfileTestOptions) \<Rightarrow> string \<Rightarrow> error + (string list \<times> ProfileTestOptions)" where
  "parseRetestMessage unmarshal message =
     (case unmarshal message of
        Inl e \<Rightarrow> Inl e
      | Inr options \<Rightarrow>
          if TestMode options \<noteq> RETEST then Inl ErrNotRetest
          else (let o1 = options\<lparr>TestMode := RETEST\<rparr>;
                    o2 = o1\<lparr>Timeout := wrap64 (Timeout o1 * Second)\<rparr>;
                    o3 = o2\<lparr>GroupName := default_group (GroupName o2)\<rparr>;
                    o4 = (if Timeout o3 < 20 then o3\<lparr>Timeout := 20\<rparr> else o3);
                    o5 = (if Concurrency o4 < 1 then o4\<lparr>Concurrency := 1\<rparr> else o4)
                in Inr (Links o5, o5)))"

text \<open>The record the decoder yields for an envelope: the fields of the JSON object.\<close>

definition envelope :: "int \<Rightarrow> int \<Rightarrow> int \<Rightarrow> int list \<Rightarrow> string list \<Rightarrow> ProfileTestOptions" where
  "envelope mode conc tmo ids ls =
     \<lparr>GroupName = '''', SpeedTestMode = '''', PingMethod = '''', SortMethod = '''',
      Concurrency = conc, TestMode = mode, TestIDs = ids, Timeout = tmo, Links = ls\<rparr>"

subsection \<open>The two patterns of parseLinks\<close>

text \<open>
  The patterns are written as syntax trees. \<open>ms r s\<close> lists what is left of \<open>s\<close> after
  each way \<open>r\<close> can match a prefix of it, in the order of preference of Go's
  \<open>regexp\<close> (leftmost-first: the first alternative first, a greedy repetition longest
  first, a lazy one shortest first). Capture groups do not change what is matched and are
  left out. Strings are byte strings; the only non-ASCII text the patterns can tell apart is
  what \<open>(?i)\<close> folds onto ASCII letters, U+017F for \<open>s\<close> and U+212A for \<open>k\<close>, given
  here by their UTF-8 bytes.
\<close>

datatype regex =
    Cls "char \<Rightarrow> bool"
  | Seq regex regex
  | Alt regex regex
  | Opt regex
  | Plus regex
  | LazyPlus regex

fun star_g :: "(string \<Rightarrow> string list) \<Rightarrow> nat \<Rightarrow> string \<Rightarrow> string list" where
  "star_g f 0 s = [s]"
| "star_g f (Suc n) s =
     concat (map (star_g f n) (filter (\<lambda>t. length t < length s) (f s))) @ [s]"

fun star_l :: "(string \<Rightarrow> string list) \<Rightarrow> nat \<Rightarrow> string \<Rightarrow> string list" where
  "star_l f 0 s = [s]"
| "star_l f (Suc n) s =
     s # concat (map (star_l f n) (filter (\<lambda>t. length t < length s) (f s)))"

primrec ms :: "regex \<Rightarrow> string \<Rightarrow> string list" where
  "ms (Cls P) = (\<lambda>s. case s of [] \<Rightarrow> [] | c # cs \<Rightarrow> if P c then [cs] else [])"
| "ms (Seq a b) = (\<lambda>s. concat (map (ms b) (ms a s)))"
| "ms (Alt a b) = (\<lambda>s. ms a s @ ms b s)"
| "ms (Opt a) = (\<lambda>s. ms a s @ [s])"
| "ms (Plus a) = (\<lambda>s. concat (map (star_g (ms a) (length s)) (ms a s)))"
| "ms (LazyPlus a) = (\<lambda>s. concat (map (star_l (ms a) (length s)) (ms a s)))"

definition chr :: "char \<Rightarrow> regex" where
  "chr c = Cls (\<lambda>x. x = c)"

definition byte :: "nat \<Rightarrow> regex" where
  "byte n = Cls (\<lambda>x. of_char x = n)"

fun str :: "string \<Rightarrow> regex" where
  "str [] = Opt (Cls (\<lambda>x. False))"
| "str [c] = chr c"
| "str (c # cs) = Seq (chr c) (str cs)"

definition in_range :: "char \<Rightarrow> char \<Rightarrow> char \<Rightarrow> bool" where
  "in_range lo hi c \<longleftrightarrow> (of_char lo :: nat) \<le> of_char c \<and> (of_char c :: nat) \<le> of_char hi"

definition is_lower :: "char \<Rightarrow> bool" where
  "is_lower c = in_range CHR ''a'' CHR ''z'' c"

definition is_upper :: "char \<Rightarrow> bool" where
  "is_upper c = in_range CHR ''A'' CHR ''Z'' c"

definition to_upper :: "char \<Rightarrow> char" where
  "to_upper c = (if is_lower c then char_of (of_char c - (32::nat)) else c)"

text \<open>U+017F (folds to s) and U+212A (folds to k) in UTF-8.\<close>

definition long_s :: regex where
  "long_s = Seq (byte 197) (byte 191)"

definition kelvin :: regex where
  "kelvin = Seq (byte 226) (Seq (byte 132) (byte 170))"

text \<open>One letter under \<open>(?i)\<close>.\<close>

definition ci :: "char \<Rightarrow> regex" where
  "ci c =
     (let both = Cls (\<lambda>x. x = c \<or> x = to_upper c)
      in if c = CHR ''s'' then Alt both long_s
         else if c = CHR ''k'' then Alt both kelvin
         else both)"

fun ci_str :: "string \<Rightarrow> regex" where
  "ci_str [] = Opt (Cls (\<lambda>x. False))"
| "ci_str [c] = ci c"
| "ci_str (c # cs) = Seq (ci c) (ci_str cs)"

text \<open>\<open>[a-zA-Z0-9+_/=-]\<close> under \<open>(?i)\<close>.\<close>

definition token_ascii :: "char \<Rightarrow> bool" where
  "token_ascii c \<longleftrightarrow> is_lower c \<or> is_upper c \<or> is_digit c \<or> c \<in> set ''+_/=-''"

definition token :: regex where
  "token = Alt (Cls token_ascii) (Alt long_s kelvin)"

text \<open>\<open>.\<close>, \<open>[^\s]\<close>, \<open>[0-9]\<close>, \<open>[?#]\<close>, \<open>[^@\/\n]\<close>, \<open>[^:\/\n]\<close>.\<close>

definition dot :: "char \<Rightarrow> bool" where
  "dot c \<longleftrightarrow> of_char c \<noteq> (10::nat)"

definition non_space :: "char \<Rightarrow> bool" where
  "non_space c \<longleftrightarrow> (of_char c :: nat) \<notin> {9, 10, 12, 13, 32}"

definition query_or_fragment :: "char \<Rightarrow> bool" where
  "query_or_fragment c \<longleftrightarrow> c = CHR ''?'' \<or> c = CHR ''#''"

definition not_at_slash_nl :: "char \<Rightarrow> bool" where
  "not_at_slash_nl c \<longleftrightarrow> c \<noteq> CHR ''@'' \<and> c \<noteq> CHR ''/'' \<and> of_char c \<noteq> (10::nat)"

definition not_colon_slash_nl :: "char \<Rightarrow> bool" where
  "not_colon_slash_nl c \<longleftrightarrow> c \<noteq> CHR '':'' \<and> c \<noteq> CHR ''/'' \<and> of_char c \<noteq> (10::nat)"

text \<open>\<open>[0-9]{2,5}\<close>\<close>

definition port_re :: regex where
  "port_re =
     (let d = Cls is_digit
      in Seq d (Seq d (Opt (Seq d (Opt (Seq d (Opt d)))))))"

text \<open>\<open>^(?:https?:\/\/)(?:[^@\/\n]+@)?(?:www\.)?([^:\/\n]+)\<close>, from the start of the text.\<close>

definition url_re :: regex where
  "url_re =
     Seq (str ''http'') (Seq (Opt (chr CHR ''s'')) (Seq (str ''://'')
       (Seq (Opt (Seq (Plus (Cls not_at_slash_nl)) (chr CHR ''@'')))
         (Seq (Opt (str ''www.'')) (Plus (Cls not_colon_slash_nl))))))"

text \<open>\<open>(?i)(vmess|ssr)://[a-zA-Z0-9+_/=-]+\<close>\<close>

definition vmess_ssr_re :: regex where
  "vmess_ssr_re =
     Seq (Alt (ci_str ''vmess'') (ci_str ''ssr'')) (Seq (str ''://'') (Plus token))"

text \<open>\<open>(?i)(ss|trojan)://(.+?)@(.+?):([0-9]{2,5})([?#][^\s]+)\<close>\<close>

definition suffix_re :: regex where
  "suffix_re = Seq (Cls query_or_fragment) (Plus (Cls non_space))"

definition ss_trojan_scheme :: regex where
  "ss_trojan_scheme = Alt (ci_str ''ss'') (ci_str ''trojan'')"

definition ss_trojan_re :: regex where
  "ss_trojan_re =
     Seq ss_trojan_scheme (Seq (str ''://'')
       (Seq (LazyPlus (Cls dot)) (Seq (chr CHR ''@'')
         (Seq (LazyPlus (Cls dot)) (Seq (chr CHR '':'')
           (Seq port_re suffix_re))))))"

definition link_re :: regex where
  "link_re = Alt vmess_ssr_re ss_trojan_re"

text \<open>\<open>regexp.MatchString\<close> with a pattern anchored at the start.\<close>

definition MatchString :: "regex \<Rightarrow> string \<Rightarrow> bool" where
  "MatchString r s \<longleftrightarrow> ms r s \<noteq> []"

text \<open>
  \<open>FindAllStringSubmatch(message, -1)\<close>, keeping element 0 of each match: the matches
  from left to right, each search starting where the previous match ended. A match of
  no characters (neither pattern has one) moves on by one character.
\<close>

function FindAll :: "regex \<Rightarrow> string \<Rightarrow> string list" where
  "FindAll r s =
     (case ms r s of
        [] \<Rightarrow> (case s of [] \<Rightarrow> [] | c # cs \<Rightarrow> FindAll r cs)
      | rest # _ \<Rightarrow>
          if length rest < length s
          then take (length s - length rest) s # FindAll r rest
          else (case s of [] \<Rightarrow> [[]] | c # cs \<Rightarrow> [] # FindAll r cs))"
  by pat_completeness auto
termination
  by (relation "measure (\<lambda>(r, s). length s)") auto

subsection \<open>parseLinks and parseMessage\<close>

text \<open>
  \<open>getSubscriptionLinks\<close> downloads and decodes the subscription and parses the result;
  the download with its decoding is the parameter \<open>fetch\<close>. A subscription may again be
  a URL, so the function need not return.
\<close>

partial_function (option) parseLinks ::
  "(string \<Rightarrow> error + string) \<Rightarrow> string \<Rightarrow> (error + string list) option" where
  "parseLinks fetch message =
     (if MatchString url_re message
      then (case fetch message of
              Inl e \<Rightarrow> Some (Inl e)
            | Inr msg \<Rightarrow> parseLinks fetch msg)
      else (let links = FindAll link_re message
            in if length links < 1 then Some (Inl ErrInvalidData) else Some (Inr links)))"

definition parseMessage ::
  "(string \<Rightarrow> error + ProfileTestOptions) \<Rightarrow> (string \<Rightarrow> error + string) \<Rightarrow> string
     \<Rightarrow> (error + (string list \<times> ProfileTestOptions)) option" where
  "parseMessage unmarshal fetch message =
     (case parseRetestMessage unmarshal message of
        Inr res \<Rightarrow> Some (Inr res)
      | Inl _ \<Rightarrow>
          (let splits = SplitN2 message
           in if length splits < 2 then Some (Inl ErrInvalidData)
              else (case parseLinks fetch (splits ! 0) of
                      None \<Rightarrow> None
                    | Some (Inl e) \<Rightarrow> Some (Inl e)
                    | Some (Inr links) \<Rightarrow>
                        (case parseOptions (splits ! 1) of
                           Inl e \<Rightarrow> Some (Inl e)
                         | Inr options \<Rightarrow> Some (Inr (links, options))))))"

subsection \<open>Progress frames and the per-link pipeline\<close>

text \<open>
  The frames built by \<open>getMsgByte\<close> and \<open>gotserverMsg\<close> and the constant frame
  \<open>SPEEDTEST_ERROR_NONODES\<close>, as values.
\<close>

datatype event =
    Started
  | GotServer int string string
  | StartPing int
  | GotPing int int
  | StartSpeed int
  | GotSpeed int int int int
  | EndOne int
  | Eof
  | SPEEDTEST_ERROR_NONODES

text \<open>
  What a pipeline does that can be seen from outside: the frames it writes, the calls of
  the primitives, and the start of the goroutine that consumes the samples, with the frames
  that goroutine is going to write on its own.
\<close>

datatype action =
    Frame event
  | PingCall string
  | DownloadCall string int
  | StartConsumer "event list"

datatype outcome = Returned "error option" | Panicked

record ProfileTest =
  Options :: ProfileTestOptions
  Links_PT :: "string list"

fun frames_of :: "action list \<Rightarrow> event list" where
  "frames_of [] = []"
| "frames_of (Frame e # as) = e # frames_of as"
| "frames_of (_ # as) = frames_of as"

text \<open>\<open>p.Links[index]\<close>: an index outside the slice panics.\<close>

definition index_links :: "ProfileTest \<Rightarrow> int \<Rightarrow> error + string" where
  "index_links p index =
     (if 0 \<le> index \<and> index < int (length (Links_PT p))
      then Inr (Links_PT p ! nat index) else Inl PanicIndex)"

definition sentinel :: "int \<Rightarrow> event" where
  "sentinel index = GotSpeed index (- 1) (- 1) 0"

text \<open>
  \<open>request.PingLink(link, 2)\<close> is the parameter \<open>ping\<close>: the elapsed milliseconds and
  the error, as Go returns them side by side.
\<close>

definition pingLink ::
  "ProfileTest \<Rightarrow> (string \<Rightarrow> int \<times> error option) \<Rightarrow> int \<Rightarrow> string \<Rightarrow> action list \<times> outcome" where
  "pingLink p ping index link =
     (if SpeedTestMode (Options p) = SpeedOnly then ([], Returned None)
      else (case (if link = [] then index_links p index else Inr link) of
              Inl _ \<Rightarrow> ([], Panicked)
            | Inr l \<Rightarrow>
                (let (elapse, err) = ping l;
                     pre = [Frame (StartPing index), PingCall l, Frame (GotPing index elapse)]
                 in if elapse < 1 then (pre @ [Frame (sentinel index)], Returned err)
                    else if SpeedTestMode (Options p) = PingOnly
                    then (pre @ [Frame (sentinel index)], Returned (Some ErrPingOnly))
                    else (pre, Returned err))))"

text \<open>Go's integer division rounds towards zero.\<close>

definition quot :: "int \<Rightarrow> int \<Rightarrow> int" where
  "quot a b = sgn a * sgn b * (\<bar>a\<bar> div \<bar>b\<bar>)"

text \<open>The inner loop over \<open>speeds\<close>: \<open>avg += s / int64(len(speeds))\<close>, in 64 bits.\<close>

definition average :: "int list \<Rightarrow> int" where
  "average speeds = foldl (\<lambda>avg s. wrap64 (avg + quot s (int (length speeds)))) 0 speeds"

text \<open>
  The consumer of the sample channel, on the samples in the order they arrive: it stops at
  the first negative sample or when the channel is closed, and writes one frame for every
  other sample.
\<close>

fun aggregate :: "int \<Rightarrow> int \<Rightarrow> int list \<Rightarrow> int list \<Rightarrow> event list" where
  "aggregate index mx speeds [] = []"
| "aggregate index mx speeds (speed # rest) =
     (if speed < 0 then []
      else (let speeds' = speeds @ [speed];
                avg = average speeds';
                mx' = (if mx < speed then speed else mx)
            in GotSpeed index avg mx' speed # aggregate index mx' speeds' rest))"

text \<open>
  \<open>download.Download(link, timeout, timeout, ch)\<close> is the parameter \<open>download\<close>: the
  samples it sends on the channel, the speed it returns and its error. The result of
  \<open>testOne\<close> is what it did, whether \<open>p.wg.Done()\<close> was deferred, and how it ended.
  The consumer is started after the \<open>startspeed\<close> frame and before the download; nothing
  waits for it, so its frames are not part of what \<open>testOne\<close> itself writes.
\<close>

definition testOne ::
  "ProfileTest \<Rightarrow> (string \<Rightarrow> int \<times> error option) \<Rightarrow> (string \<Rightarrow> int \<Rightarrow> int list \<times> int \<times> error option)
     \<Rightarrow> int \<Rightarrow> string \<Rightarrow> action list \<times> bool \<times> outcome" where
  "testOne p ping download index link =
     (let deferred = (link = [])
      in case (if link = []
               then (case index_links p index of Inl e \<Rightarrow> Inl e | Inr l \<Rightarrow> Inr (SplitN2 l ! 0))
               else Inr link) of
           Inl _ \<Rightarrow> ([], deferred, Panicked)
         | Inr l \<Rightarrow>
             (case pingLink p ping index l of
                (a1, Panicked) \<Rightarrow> (a1, deferred, Panicked)
              | (a1, Returned (Some e)) \<Rightarrow> (a1, deferred, Returned (Some e))
              | (a1, Returned None) \<Rightarrow>
                  (let (samples, speed, err) = download l (Timeout (Options p))
                   in (a1 @ [Frame (StartSpeed index),
                             StartConsumer (aggregate index 0 [] samples),
                             DownloadCall l (Timeout (Options p))]
                          @ (if speed < 1 then [Frame (sentinel index)] else []),
                       deferred, Returned err))))"

text \<open>
  The frames the goroutine of \<open>testAll\<close> writes for one link: those of \<open>testOne\<close>,
  then \<open>endone\<close>. A panic ends the program before that frame.
\<close>

definition pipeline ::
  "ProfileTest \<Rightarrow> (string \<Rightarrow> int \<times> error option) \<Rightarrow> (string \<Rightarrow> int \<Rightarrow> int list \<times> int \<times> error option)
     \<Rightarrow> int \<Rightarrow> string \<Rightarrow> event list" where
  "pipeline p ping download ident link =
     (case testOne p ping download ident link of
        (acts, _, Panicked) \<Rightarrow> frames_of acts
      | (acts, _, Returned _) \<Rightarrow> frames_of acts @ [EndOne ident])"

subsection \<open>testAll: the scheduler and its goroutines\<close>

text \<open>
  \<open>testAll\<close> runs concurrently with the goroutines it starts, so it is a transition
  system. A configuration holds the frames written so far (writes are serialised by the
  mutex), where the scheduler stands, the counter of the wait group, the number of tokens
  in the buffered channel \<open>guard\<close>, what each goroutine still has to do, and whether the
  program has panicked. There is no cancellation: \<open>ctx.Done()\<close> never fires.
  A goroutine writes a frame, signals the wait group, takes its token back, panics, or
  starts the consumer of its samples as a goroutine of its own.
\<close>

datatype wstep = WEmit event | WDone | WRelease | WPanic | WSpawn "event list"

fun steps_of :: "action list \<Rightarrow> wstep list" where
  "steps_of [] = []"
| "steps_of (Frame e # as) = WEmit e # steps_of as"
| "steps_of (StartConsumer es # as) = WSpawn es # steps_of as"
| "steps_of (_ # as) = steps_of as"

datatype mainpc =
    MLoop nat
  | MSend nat int string
  | MWait
  | MReturn "error option"

record cfg =
  frames :: "event list"
  pc :: mainpc
  wg :: int
  guard :: nat
  threads :: "wstep list list"
  crashed :: bool

text \<open>Lines 200 to 205: the id and the link handed to the goroutine of position \<open>i\<close>.\<close>

definition dispatch :: "ProfileTest \<Rightarrow> nat \<Rightarrow> error + (int \<times> string)" where
  "dispatch p i =
     (if length (TestIDs (Options p)) > 0 \<and> length (Links (Options p)) > 0
      then (if i < length (TestIDs (Options p)) \<and> i < length (Links (Options p))
            then Inr (TestIDs (Options p) ! i, Links (Options p) ! i)
            else Inl PanicIndex)
      else Inr (int i, []))"

text \<open>
  The goroutine started for \<open>(id, link)\<close>: what \<open>testOne\<close> does, the deferred
  \<open>p.wg.Done()\<close> when \<open>testOne\<close> returns or panics, then \<open>endone\<close> and the token
  taken back from \<open>guard\<close>.
\<close>

definition worker ::
  "ProfileTest \<Rightarrow> (string \<Rightarrow> int \<times> error option) \<Rightarrow> (string \<Rightarrow> int \<Rightarrow> int list \<times> int \<times> error option)
     \<Rightarrow> int \<Rightarrow> string \<Rightarrow> wstep list" where
  "worker p ping download ident link =
     (case testOne p ping download ident link of
        (acts, deferred, res) \<Rightarrow>
          steps_of acts @ (if deferred then [WDone] else [])
            @ (case res of Panicked \<Rightarrow> [WPanic] | Returned _ \<Rightarrow> [WEmit (EndOne ident), WRelease]))"

text \<open>Lines 189 to 197, up to the creation of \<open>guard\<close>.\<close>

definition testAll_init :: "ProfileTest \<Rightarrow> cfg" where
  "testAll_init p =
     (if length (Links_PT p) < 1
      then \<lparr>frames = [SPEEDTEST_ERROR_NONODES], pc = MReturn (Some ErrNoProfile), wg = 0,
             guard = 0, threads = [], crashed = False\<rparr>
      else \<lparr>frames = Started # map (\<lambda>i. GotServer (int i) (Links_PT p ! i) (GroupName (Options p)))
                                    [0 ..< length (Links_PT p)],
             pc = MLoop 0, wg = 0, guard = 0, threads = [],
             crashed = (Concurrency (Options p) < 0)\<rparr>)"

text \<open>One step of the scheduler, if it can take one.\<close>

definition main_step ::
  "ProfileTest \<Rightarrow> (string \<Rightarrow> int \<times> error option) \<Rightarrow> (string \<Rightarrow> int \<Rightarrow> int list \<times> int \<times> error option)
     \<Rightarrow> cfg \<Rightarrow> cfg option" where
  "main_step p ping download c =
     (if crashed c then None
      else case pc c of
        MLoop i \<Rightarrow>
          (if i < length (Links_PT p)
           then (case dispatch p i of
                   Inl _ \<Rightarrow> Some (c\<lparr>wg := wg c + 1, crashed := True\<rparr>)
                 | Inr (ident, link) \<Rightarrow> Some (c\<lparr>wg := wg c + 1, pc := MSend i ident link\<rparr>))
           else Some (c\<lparr>pc := MWait\<rparr>))
      | MSend i ident link \<Rightarrow>
          (if int (guard c) < Concurrency (Options p)
           then Some (c\<lparr>guard := guard c + 1,
                        threads := threads c @ [worker p ping download ident link],
                        pc := MLoop (i + 1)\<rparr>)
           else None)
      | MWait \<Rightarrow>
          (if wg c = 0 then Some (c\<lparr>frames := frames c @ [Eof], pc := MReturn None\<rparr>) else None)
      | MReturn _ \<Rightarrow> None)"

text \<open>One step of goroutine \<open>k\<close>, if it has one left.\<close>

definition thread_step :: "nat \<Rightarrow> cfg \<Rightarrow> cfg option" where
  "thread_step k c =
     (if crashed c \<or> \<not> k < length (threads c) then None
      else case threads c ! k of
        [] \<Rightarrow> None
      | st # rest \<Rightarrow>
          (let c' = c\<lparr>threads := (threads c)[k := rest]\<rparr>
           in case st of
                WEmit e \<Rightarrow> Some (c'\<lparr>frames := frames c' @ [e]\<rparr>)
              | WDone \<Rightarrow> Some (c'\<lparr>wg := wg c' - 1\<rparr>)
              | WRelease \<Rightarrow> Some (c'\<lparr>guard := guard c' - 1\<rparr>)
              | WPanic \<Rightarrow> Some (c'\<lparr>crashed := True\<rparr>)
              | WSpawn es \<Rightarrow> Some (c'\<lparr>threads := threads c' @ [map WEmit es]\<rparr>)))"

inductive step ::
  "ProfileTest \<Rightarrow> (string \<Rightarrow> int \<times> error option) \<Rightarrow> (string \<Rightarrow> int \<Rightarrow> int list \<times> int \<times> error option)
     \<Rightarrow> cfg \<Rightarrow> cfg \<Rightarrow> bool"
  for p ping download where
    step_main: "main_step p ping download c = Some c' \<Longrightarrow> step p ping download c c'"
  | step_thread: "thread_step k c = Some c' \<Longrightarrow> step p ping download c c'"

inductive reachable ::
  "ProfileTest \<Rightarrow> (string \<Rightarrow> int \<times> error option) \<Rightarrow> (string \<Rightarrow> int \<Rightarrow> int list \<times> int \<times> error option)
     \<Rightarrow> cfg \<Rightarrow> bool"
  for p ping download where
    reach_init: "reachable p ping download (testAll_init p)"
  | reach_step: "reachable p ping download c \<Longrightarrow> step p ping download c c'
                   \<Longrightarrow> reachable p ping download c'"

text \<open>
  A schedule names who moves next: \<open>None\<close> the scheduler, \<open>Some k\<close> goroutine \<open>k\<close>.
  \<open>run\<close> follows a schedule and stops where the named party cannot move.
\<close>

fun run ::
  "ProfileTest \<Rightarrow> (string \<Rightarrow> int \<times> error option) \<Rightarrow> (string \<Rightarrow> int \<Rightarrow> int list \<times> int \<times> error option)
     \<Rightarrow> nat option list \<Rightarrow> cfg \<Rightarrow> cfg" where
  "run p ping download [] c = c"
| "run p ping download (None # sch) c =
     (case main_step p ping download c of None \<Rightarrow> c | Some c' \<Rightarrow> run p ping download sch c')"
| "run p ping download (Some k # sch) c =
     (case thread_step k c of None \<Rightarrow> c | Some c' \<Rightarrow> run p ping download sch c')"

subsection \<open>Reading frames\<close>

text \<open>The samples the consumer takes: those before the first negative one.\<close>

definition consumed :: "int list \<Rightarrow> int list" where
  "consumed samples = takeWhile (\<lambda>s. 0 \<le> s) samples"

text \<open>The \<open>avg\<close> and \<open>max\<close> arguments of a \<open>gotspeed\<close> frame.\<close>

fun gs_avg :: "event \<Rightarrow> int" where
  "gs_avg (GotSpeed i a m c) = a"
| "gs_avg _ = 0"

fun gs_max :: "event \<Rightarrow> int" where
  "gs_max (GotSpeed i a m c) = m"
| "gs_max _ = 0"

fun is_gotspeed :: "event \<Rightarrow> bool" where
  "is_gotspeed (GotSpeed i a m c) = True"
| "is_gotspeed _ = False"

subsection \<open>Concrete batches and primitives\<close>

text \<open>
  A batch as the legacy path builds it, one as the RETEST path builds it (the links of the
  envelope are the batch's links), and primitives with fixed answers.
\<close>

definition legacy_batch :: "string \<Rightarrow> string list \<Rightarrow> ProfileTest" where
  "legacy_batch mode ls =
     \<lparr>Options = \<lparr>GroupName = ''Group1'', SpeedTestMode = mode, PingMethod = [],
                  SortMethod = [], Concurrency = 3, TestMode = ALLTEST, TestIDs = [],
                  Timeout = 30 * Second, Links = []\<rparr>,
      Links_PT = ls\<rparr>"

definition retest_batch :: "int list \<Rightarrow> string list \<Rightarrow> ProfileTest" where
  "retest_batch ids ls =
     \<lparr>Options = \<lparr>GroupName = ''Default Group'', SpeedTestMode = [], PingMethod = [],
                  SortMethod = [], Concurrency = 1, TestMode = RETEST, TestIDs = ids,
                  Timeout = 30 * Second, Links = ls\<rparr>,
      Links_PT = ls\<rparr>"

definition probe_const :: "int \<Rightarrow> error option \<Rightarrow> string \<Rightarrow> int \<times> error option" where
  "probe_const elapse err = (\<lambda>_. (elapse, err))"

definition download_const ::
  "int list \<Rightarrow> int \<Rightarrow> error option \<Rightarrow> string \<Rightarrow> int \<Rightarrow> int list \<times> int \<times> error option" where
  "download_const samples speed err = (\<lambda>_ _. (samples, speed, err))"

text \<open>
  The stored link of a position, its part before the first caret, the link \<open>testOne\<close>
  works on (its argument, or that part of the stored link when the argument is empty), and
  the link the probe is called with (the stored link again when the other is empty).
\<close>

definition stored :: "ProfileTest \<Rightarrow> int \<Rightarrow> string" where
  "stored p index = Links_PT p ! nat index"

definition before_caret :: "string \<Rightarrow> string" where
  "before_caret l = takeWhile (\<lambda>c. c \<noteq> CHR ''^'') l"

definition resolved :: "ProfileTest \<Rightarrow> int \<Rightarrow> string \<Rightarrow> string" where
  "resolved p index link = (if link = [] then before_caret (stored p index) else link)"

definition probed :: "ProfileTest \<Rightarrow> int \<Rightarrow> string \<Rightarrow> string" where
  "probed p index link =
     (if resolved p index link = [] then stored p index else resolved p index link)"

subsection \<open>What holds of a RETEST batch while it runs\<close>

text \<open>
  For a batch of \<open>n\<close> links whose goroutines all get a link of their own: no \<open>eof\<close> frame
  is written or pending, no goroutine has a \<open>Done\<close> left, and unless the program has
  panicked the wait group counts the positions dispatched so far.
\<close>

definition retest_inv :: "nat \<Rightarrow> cfg \<Rightarrow> bool" where
  "retest_inv n c \<longleftrightarrow>
     Eof \<notin> set (frames c)
     \<and> (\<forall>t\<in>set (threads c). WDone \<notin> set t \<and> WEmit Eof \<notin> set t
            \<and> (\<forall>es. WSpawn es \<in> set t \<longrightarrow> Eof \<notin> set es))
     \<and> (crashed c \<or>
          (case pc c of
             MLoop i \<Rightarrow> wg c = int i \<and> i \<le> n
           | MSend i ident link \<Rightarrow> wg c = int i + 1 \<and> i < n \<and> link \<noteq> []
           | MWait \<Rightarrow> wg c = int n
           | MReturn r \<Rightarrow> False))"

subsection \<open>The texts a pattern matches\<close>

text \<open>The set of texts a pattern can match as a whole, whatever the preference among them.\<close>

primrec lang :: "regex \<Rightarrow> string set" where
  "lang (Cls P) = {[c] | c. P c}"
| "lang (Seq a b) = {u @ v | u v. u \<in> lang a \<and> v \<in> lang b}"
| "lang (Alt a b) = lang a \<union> lang b"
| "lang (Opt a) = insert [] (lang a)"
| "lang (Plus a) = {concat ws | ws. ws \<noteq> [] \<and> set ws \<subseteq> lang a}"
| "lang (LazyPlus a) = {concat ws | ws. ws \<noteq> [] \<and> set ws \<subseteq> lang a}"

subsection \<open>Where the dispatch loop stands\<close>

text \<open>
  For a batch with explicit ids and links: the loop has passed only positions that both
  sequences have, and it has left the loop only if they have every position of the list.
\<close>

definition bounds_inv :: "ProfileTest \<Rightarrow> cfg \<Rightarrow> bool" where
  "bounds_inv p c \<longleftrightarrow>
     (let n = length (Links_PT p); a = length (TestIDs (Options p));
          b = length (Links (Options p))
      in case pc c of
           MLoop i \<Rightarrow> i \<le> n \<and> i \<le> a \<and> i \<le> b
         | MSend i ident link \<Rightarrow> i < n \<and> i < a \<and> i < b
         | MWait \<Rightarrow> n \<le> a \<and> n \<le> b
         | MReturn r \<Rightarrow> n \<le> a \<and> n \<le> b)"

text \<open>
  The form of a descriptor of the second family, in words: a scheme, \<open>://\<close>, a credential,
  \<open>@\<close>, a host, \<open>:\<close>, a port of 2 to 5 digits, then \<open>?\<close> or \<open>#\<close> and at least one more
  character, none of them white space. Credential and host are any non-empty texts without
  a line feed.
\<close>

definition ss_trojan_form :: "string \<Rightarrow> bool" where
  "ss_trojan_form w \<longleftrightarrow>
     (\<exists>sch cred host port q suf.
        w = sch @ ''://'' @ cred @ ''@'' @ host @ '':'' @ port @ q # suf
        \<and> sch \<in> lang ss_trojan_scheme
        \<and> cred \<noteq> [] \<and> list_all dot cred \<and> host \<noteq> [] \<and> list_all dot host
        \<and> 2 \<le> length port \<and> length port \<le> 5 \<and> list_all is_digit port
        \<and> (q = CHR ''?'' \<or> q = CHR ''#'') \<and> suf \<noteq> [] \<and> list_all non_space suf)"

text \<open>A text holds a descriptor when some part of it is one, of either family.\<close>

definition holds_descriptor :: "string \<Rightarrow> bool" where
  "holds_descriptor message \<longleftrightarrow>
     (\<exists>u w v. message = u @ w @ v \<and> (w \<in> lang vmess_ssr_re \<or> ss_trojan_form w))"

section \<open>Properties\<close>

subsection \<open>Option parsing\<close>

lemma parse_uint_nonneg: "0 \<le> n \<Longrightarrow> parse_uint n s = Inr v \<Longrightarrow> 0 \<le> v"
proof (induction s arbitrary: n)
  case Nil
  then show ?case by simp
next
  case (Cons c cs)
  from Cons.prems(2) have d: "is_digit c" and r: "parse_uint (n * 10 + digit_val c) cs = Inr v"
    by (auto simp: Let_def split: if_splits)
  from d have "0 \<le> digit_val c" by (simp add: is_digit_def digit_val_def)
  with Cons.prems(1) have "0 \<le> n * 10 + digit_val c" by simp
  from Cons.IH [OF this r] show ?case .
qed

lemma Atoi_range: "Atoi s = Inr v \<Longrightarrow> in_int64 v"
  by (auto simp: Atoi_def Let_def in_int64_def split: if_splits sum.splits
      dest: parse_uint_nonneg [rotated])

text \<open>
  The legacy path floors the concurrency at 1, and the timeout at 20 seconds as long as the
  requested number of seconds fits into 64 bits of nanoseconds.
\<close>

lemma parseOptions_floors:
  assumes "parseOptions message = Inr opt"
  shows "1 \<le> Concurrency opt"
    and "Atoi (Split message ! 6) = Inr t \<Longrightarrow> t * Second < 2 ^ 63 \<Longrightarrow> 20 * Second \<le> Timeout opt"
proof -
  from assms show "1 \<le> Concurrency opt"
    by (auto simp: parseOptions_def Let_def split: if_splits sum.splits)
next
  assume t: "Atoi (Split message ! 6) = Inr t" and fit: "t * Second < 2 ^ 63"
  define u where "u = (if t < 20 then 20 else t)"
  have u: "20 \<le> u" "u * Second < 2 ^ 63"
    using fit by (auto simp: u_def Second_def)
  have "Timeout opt = wrap64 (u * Second)"
    using assms t by (auto simp: parseOptions_def Let_def u_def split: if_splits sum.splits)
  moreover have "wrap64 (u * Second) = u * Second"
    using u by (simp add: wrap64_def Second_def)
  ultimately show "20 * Second \<le> Timeout opt"
    using u by (simp add: Second_def)
qed

lemma parseRetestMessage_concurrency:
  "parseRetestMessage unmarshal message = Inr (ls, opt) \<Longrightarrow> 1 \<le> Concurrency opt"
  by (auto simp: parseRetestMessage_def Let_def split: if_splits sum.splits)

text \<open>
  C1. After parsing, the concurrency is at least 1 and the timeout at least 20 seconds, on
  both input paths. The RETEST path breaks this: it multiplies the requested seconds into
  nanoseconds first and then floors the result at the number 20, so an envelope asking for
  a timeout of 5 (and a concurrency of 0) is accepted with a timeout of 5 seconds, and one
  asking for 0 ends with 20 nanoseconds.
\<close>

theorem parseRetestMessage_timeout_not_floored:
  "parseRetestMessage (\<lambda>_. Inr (envelope RETEST 0 5 [0] [''vmess://abc'']))
       message
     = Inr ([''vmess://abc''],
            (envelope RETEST 1 (5 * Second) [0] [''vmess://abc''])\<lparr>GroupName := ''Default Group''\<rparr>)
   \<and> 5 * Second < 20 * Second
   \<and> parseRetestMessage (\<lambda>_. Inr (envelope RETEST 0 0 [0] [''vmess://abc'']))
       message
     = Inr ([''vmess://abc''],
            (envelope RETEST 1 20 [0] [''vmess://abc''])\<lparr>GroupName := ''Default Group''\<rparr>)"
  by (simp add: parseRetestMessage_def envelope_def RETEST_def Second_def wrap64_def
      default_group_def)

subsection \<open>The sample consumer\<close>

lemma wrap64_id: "0 \<le> x \<Longrightarrow> x < 2 ^ 63 \<Longrightarrow> wrap64 x = x"
  by (simp add: wrap64_def)

lemma quot_nonneg: "0 \<le> a \<Longrightarrow> 0 < b \<Longrightarrow> quot a b = a div b"
  by (cases "a = 0") (simp_all add: quot_def)

lemma foldl_average:
  fixes n M :: int
  assumes "0 < n" "M < 2 ^ 63"
    and "\<forall>s\<in>set xs. 0 \<le> s \<and> s \<le> M"
    and "0 \<le> a" "a + int (length xs) * (M div n) \<le> M"
  shows "foldl (\<lambda>avg s. wrap64 (avg + quot s n)) a xs = a + (\<Sum>s\<leftarrow>xs. s div n)
         \<and> a + (\<Sum>s\<leftarrow>xs. s div n) \<le> a + int (length xs) * (M div n)"
  using assms(3-5)
proof (induction xs arbitrary: a)
  case Nil
  then show ?case by simp
next
  case (Cons x xs)
  have x: "0 \<le> x" "x \<le> M" using Cons.prems(1) by auto
  have q: "0 \<le> x div n" "x div n \<le> M div n"
    using x assms(1) by (simp_all add: pos_imp_zdiv_nonneg_iff zdiv_mono1)
  have Mq: "0 \<le> M div n" using q by linarith
  have len: "0 \<le> int (length xs) * (M div n)" using Mq by simp
  have expand: "int (length (x # xs)) * (M div n) = M div n + int (length xs) * (M div n)"
    by (simp add: algebra_simps)
  have step: "wrap64 (a + quot x n) = a + x div n"
  proof -
    have "a + x div n \<le> M"
      using Cons.prems(3) q len unfolding expand by linarith
    then show ?thesis
      using Cons.prems(2) q assms(1,2) x by (simp add: quot_nonneg wrap64_id)
  qed
  have "a + x div n + int (length xs) * (M div n) \<le> M"
    using Cons.prems(3) q unfolding expand by linarith
  with Cons.IH [of "a + x div n"] Cons.prems(1,2) q
  have "foldl (\<lambda>avg s. wrap64 (avg + quot s n)) (a + x div n) xs
          = a + x div n + (\<Sum>s\<leftarrow>xs. s div n)
        \<and> a + x div n + (\<Sum>s\<leftarrow>xs. s div n) \<le> a + x div n + int (length xs) * (M div n)"
    by simp
  then show ?case
    using step q unfolding expand by simp
qed

lemma average_sum:
  assumes "xs \<noteq> []" "\<forall>s\<in>set xs. 0 \<le> s \<and> s \<le> M" "M < 2 ^ 63"
  shows "average xs = (\<Sum>s\<leftarrow>xs. s div int (length xs))"
    and "average xs \<le> M"
proof -
  let ?n = "int (length xs)"
  have n: "0 < ?n" using assms(1) by simp
  have "0 \<le> M" using assms(1,2) by (cases xs) auto
  then have le: "?n * (M div ?n) \<le> M"
    using n pos_mod_sign [of ?n M] mult_div_mod_eq [of ?n M] by linarith
  then have b: "0 + ?n * (M div ?n) \<le> M" by simp
  from foldl_average [OF n assms(3) assms(2) order_refl b] le
  show "average xs = (\<Sum>s\<leftarrow>xs. s div int (length xs))" and "average xs \<le> M"
    by (simp_all add: average_def)
qed


lemma aggregate_consumed: "aggregate index mx sp ss = aggregate index mx sp (consumed ss)"
  by (induction ss arbitrary: mx sp) (simp_all add: consumed_def Let_def)

lemma length_aggregate:
  "\<forall>s\<in>set ss. 0 \<le> s \<Longrightarrow> length (aggregate index mx sp ss) = length ss"
  by (induction ss arbitrary: mx sp) (simp_all add: Let_def)

lemma aggregate_nth:
  "\<forall>s\<in>set ss. 0 \<le> s \<Longrightarrow> k < length ss \<Longrightarrow>
     aggregate index mx sp ss ! k
       = GotSpeed index (average (sp @ take (Suc k) ss)) (fold max (take (Suc k) ss) mx) (ss ! k)"
proof (induction ss arbitrary: k mx sp)
  case Nil
  then show ?case by simp
next
  case (Cons s ss)
  show ?case
  proof (cases k)
    case 0
    then show ?thesis using Cons.prems by (simp add: Let_def max_def)
  next
    case (Suc j)
    then show ?thesis
      using Cons.prems Cons.IH [of j "if mx < s then s else mx" "sp @ [s]"]
      by (simp add: Let_def max_def)
  qed
qed

lemma fold_max_ge: "m \<le> fold max xs (m::int)"
proof (induction xs arbitrary: m)
  case Nil
  then show ?case by simp
next
  case (Cons y ys)
  have "m \<le> max y m" by simp
  also have "max y m \<le> fold max ys (max y m)" by (rule Cons.IH)
  finally show ?case by simp
qed

lemma fold_max_mem: "x \<in> set xs \<Longrightarrow> x \<le> fold max xs (m::int)"
proof (induction xs arbitrary: m)
  case Nil
  then show ?case by simp
next
  case (Cons y ys)
  then show ?case
    using fold_max_ge [of "max y m" ys] by auto
qed

lemma fold_max_bound: "m < b \<Longrightarrow> \<forall>x\<in>set xs. x < b \<Longrightarrow> fold max xs (m::int) < b"
  by (induction xs arbitrary: m) simp_all

lemma fold_max_take_mono:
  "j \<le> k \<Longrightarrow> fold max (take j xs) (m::int) \<le> fold max (take k xs) m"
proof -
  assume "j \<le> k"
  then have "take k xs = take j xs @ take (k - j) (drop j xs)"
    by (metis le_add_diff_inverse take_add)
  then show ?thesis
    by (simp add: fold_max_ge)
qed

lemma sum_list_div_le:
  fixes n :: int
  assumes "0 < n"
  shows "(\<Sum>s\<leftarrow>xs. s div n) \<le> sum_list xs div n"
proof (induction xs)
  case Nil
  then show ?case by simp
next
  case (Cons x xs)
  have "0 \<le> (x mod n + sum_list xs mod n) div n"
    using assms by (simp add: pos_imp_zdiv_nonneg_iff)
  then have "x div n + sum_list xs div n \<le> (x + sum_list xs) div n"
    using div_add1_eq [of x "sum_list xs" n] by linarith
  with Cons.IH show ?case by simp
qed

lemma consumed_nonneg: "\<forall>s\<in>set (consumed samples). 0 \<le> s"
  by (auto simp: consumed_def dest: set_takeWhileD)

lemma consumed_subset: "set (consumed samples) \<subseteq> set samples"
  by (auto simp: consumed_def dest: set_takeWhileD)

lemma aggregate_frame:
  assumes "k < length (consumed samples)"
  shows "aggregate index 0 [] samples ! k
           = GotSpeed index (average (take (Suc k) (consumed samples)))
               (fold max (take (Suc k) (consumed samples)) 0) (consumed samples ! k)"
  using aggregate_nth [OF consumed_nonneg assms, of index 0 "[]"] aggregate_consumed [of index 0 "[]" samples]
  by simp

lemma prefix_facts:
  assumes "\<forall>s\<in>set samples. s < 2 ^ 63" "k < length (consumed samples)"
  shows "take (Suc k) (consumed samples) \<noteq> []"
    and "\<forall>s\<in>set (take (Suc k) (consumed samples)). 0 \<le> s \<and> s \<le> fold max (take (Suc k) (consumed samples)) 0"
    and "fold max (take (Suc k) (consumed samples)) 0 < 2 ^ 63"
    and "length (take (Suc k) (consumed samples)) = Suc k"
proof -
  let ?xs = "take (Suc k) (consumed samples)"
  show "?xs \<noteq> []" using assms(2) by auto
  have sub: "set ?xs \<subseteq> set (consumed samples)" by (rule set_take_subset)
  show "\<forall>s\<in>set ?xs. 0 \<le> s \<and> s \<le> fold max ?xs 0"
    using sub consumed_nonneg [of samples] fold_max_mem [of _ ?xs 0] by blast
  have "\<forall>x\<in>set ?xs. x < 2 ^ 63"
    using sub consumed_subset [of samples] assms(1) by blast
  then show "fold max ?xs 0 < 2 ^ 63"
    by (intro fold_max_bound) simp_all
  show "length ?xs = Suc k" using assms(2) by simp
qed

text \<open>
  C3 (as amended). The \<open>avg\<close> of the frame written for the \<open>k+1\<close>-th consumed sample
  is the sum of the quotients \<open>s div (k+1)\<close> of the samples consumed so far, each
  rounded down before it is added; the 64-bit additions never wrap. It never exceeds the
  quotient of the sum by \<open>k+1\<close>.
\<close>

theorem aggregate_avg_per_term:
  assumes "\<forall>s\<in>set samples. s < 2 ^ 63" and "k < length (consumed samples)"
  shows "is_gotspeed (aggregate index 0 [] samples ! k)
       \<and> gs_avg (aggregate index 0 [] samples ! k)
           = (\<Sum>s\<leftarrow>take (Suc k) (consumed samples). s div int (Suc k))
       \<and> gs_avg (aggregate index 0 [] samples ! k)
           \<le> sum_list (take (Suc k) (consumed samples)) div int (Suc k)"
proof -
  note pf = prefix_facts [OF assms]
  have avg: "average (take (Suc k) (consumed samples))
               = (\<Sum>s\<leftarrow>take (Suc k) (consumed samples). s div int (Suc k))"
    using average_sum(1) [OF pf(1) pf(2) pf(3)] pf(4) by simp
  have "(\<Sum>s\<leftarrow>take (Suc k) (consumed samples). s div int (Suc k))
          \<le> sum_list (take (Suc k) (consumed samples)) div int (Suc k)"
    by (rule sum_list_div_le) simp
  then show ?thesis
    using avg by (simp add: aggregate_frame [OF assms(2)])
qed

theorem aggregate_avg_per_term_witness:
  "gs_avg (aggregate 0 0 [] [1, 1, - 1, 9] ! 1) = 0"
  using aggregate_avg_per_term [of "[1, 1, - 1, 9]" 1 0]
  by (simp add: consumed_def)

text \<open>
  C3 as stated fails: for the samples 1, 1 the second frame carries 0, not \<open>(1 + 1) div 2\<close>.
\<close>

theorem aggregate_avg_not_mean:
  "gs_avg (aggregate 0 0 [] [1, 1] ! 1) \<noteq> (1 + 1) div 2"
  by (simp add: average_def quot_def wrap64_def)

text \<open>
  C5 (as amended). Among the frames the sample consumer writes, the \<open>max\<close> values never
  decrease and every \<open>avg\<close> lies between 0 and the \<open>max\<close> of its frame; the consumer
  writes one frame for every sample before the first negative one.
\<close>

theorem aggregate_max_avg:
  assumes "\<forall>s\<in>set samples. s < 2 ^ 63" and "j \<le> k" and "k < length (consumed samples)"
  shows "gs_max (aggregate index 0 [] samples ! j) \<le> gs_max (aggregate index 0 [] samples ! k)
       \<and> 0 \<le> gs_avg (aggregate index 0 [] samples ! k)
       \<and> gs_avg (aggregate index 0 [] samples ! k) \<le> gs_max (aggregate index 0 [] samples ! k)
       \<and> length (aggregate index 0 [] samples) = length (consumed samples)"
proof -
  have j: "j < length (consumed samples)" using assms(2,3) by simp
  note pf = prefix_facts [OF assms(1,3)]
  have "fold max (take (Suc j) (consumed samples)) 0 \<le> fold max (take (Suc k) (consumed samples)) 0"
    using assms(2) by (intro fold_max_take_mono) simp
  then have mono: "gs_max (aggregate index 0 [] samples ! j) \<le> gs_max (aggregate index 0 [] samples ! k)"
    by (simp add: aggregate_frame [OF j] aggregate_frame [OF assms(3)])
  have "average (take (Suc k) (consumed samples))
               = (\<Sum>s\<leftarrow>take (Suc k) (consumed samples). s div int (Suc k))"
    using average_sum(1) [OF pf(1) pf(2) pf(3)] pf(4) by simp
  moreover have "0 \<le> (\<Sum>s\<leftarrow>take (Suc k) (consumed samples). s div int (Suc k))"
  proof (rule sum_list_nonneg)
    fix x
    assume "x \<in> set (map (\<lambda>s. s div int (Suc k)) (take (Suc k) (consumed samples)))"
    then obtain s where "s \<in> set (take (Suc k) (consumed samples))" "x = s div int (Suc k)"
      by auto
    then show "0 \<le> x"
      using pf(2) by (simp add: pos_imp_zdiv_nonneg_iff)
  qed
  ultimately have lo: "0 \<le> gs_avg (aggregate index 0 [] samples ! k)"
    by (simp add: aggregate_frame [OF assms(3)])
  have hi: "gs_avg (aggregate index 0 [] samples ! k) \<le> gs_max (aggregate index 0 [] samples ! k)"
    using average_sum(2) [OF pf(1) pf(2) pf(3)] by (simp add: aggregate_frame [OF assms(3)])
  have len: "length (aggregate index 0 [] samples) = length (consumed samples)"
    using aggregate_consumed [of index 0 "[]" samples] length_aggregate [OF consumed_nonneg, of index 0 "[]" samples]
    by simp
  from mono lo hi len show ?thesis by blast
qed

theorem aggregate_max_avg_witness:
  "2 < length (consumed [5, 2, 9, - 1])
   \<and> gs_max (aggregate 0 0 [] [5, 2, 9, - 1] ! 0) \<le> gs_max (aggregate 0 0 [] [5, 2, 9, - 1] ! 2)
   \<and> 0 \<le> gs_avg (aggregate 0 0 [] [5, 2, 9, - 1] ! 2)
   \<and> gs_avg (aggregate 0 0 [] [5, 2, 9, - 1] ! 2) \<le> gs_max (aggregate 0 0 [] [5, 2, 9, - 1] ! 2)
   \<and> length (aggregate 0 0 [] [5, 2, 9, - 1]) = length (consumed [5, 2, 9, - 1])"
proof -
  have h1: "\<forall>s\<in>set [5, 2, 9, - 1]. s < (2::int) ^ 63" by simp
  have h2: "(0::nat) \<le> 2" by simp
  have h3: "2 < length (consumed [5, 2, 9, - 1])" by (simp add: consumed_def)
  show ?thesis using h3 aggregate_max_avg [OF h1 h2 h3, of 0] by blast
qed

text \<open>
  C5 as stated fails on the sentinel frame, which is a \<open>gotspeed\<close> frame of the link too:
  a ping-only pipeline writes \<open>gotspeed(0, -1, -1, 0)\<close>, whose \<open>avg\<close> is below 0.
\<close>

theorem sentinel_outside_range:
  "pipeline (legacy_batch PingOnly [''vmess://abc'']) (probe_const 7 None) (download_const [] 0 None) 0 []
     = [StartPing 0, GotPing 0 7, GotSpeed 0 (- 1) (- 1) 0, EndOne 0]
   \<and> \<not> 0 \<le> gs_avg (GotSpeed 0 (- 1) (- 1) 0)"
  by (simp add: pipeline_def testOne_def pingLink_def legacy_batch_def probe_const_def
      index_links_def SplitN2_def PingOnly_def SpeedOnly_def sentinel_def)

subsection \<open>The per-link pipeline\<close>


lemma SplitN2_0: "SplitN2 l ! 0 = before_caret l"
proof (cases "CHR ''^'' \<in> set l")
  case True
  then show ?thesis by (simp add: SplitN2_def before_caret_def)
next
  case False
  then have tw: "takeWhile (\<lambda>c. c \<noteq> CHR ''^'') l = l"
    by (induction l) auto
  show ?thesis
    using False unfolding SplitN2_def before_caret_def tw by simp
qed

lemma before_caret_no_caret: "CHR ''^'' \<notin> set (before_caret l)"
  by (auto simp: before_caret_def dest: set_takeWhileD)

lemma index_links_in_range:
  "0 \<le> index \<Longrightarrow> index < int (length (Links_PT p)) \<Longrightarrow> index_links p index = Inr (stored p index)"
  by (simp add: index_links_def stored_def)

text \<open>What \<open>pingLink\<close> does once the link it probes is known.\<close>

lemma pingLink_probe:
  assumes "SpeedTestMode (Options p) \<noteq> SpeedOnly"
    and "l \<noteq> [] \<or> (0 \<le> index \<and> index < int (length (Links_PT p)))"
    and "ping (if l = [] then stored p index else l) = (elapse, err)"
  shows "pingLink p ping index l =
           (if elapse < 1
            then ([Frame (StartPing index), PingCall (if l = [] then stored p index else l),
                   Frame (GotPing index elapse), Frame (sentinel index)], Returned err)
            else if SpeedTestMode (Options p) = PingOnly
            then ([Frame (StartPing index), PingCall (if l = [] then stored p index else l),
                   Frame (GotPing index elapse), Frame (sentinel index)], Returned (Some ErrPingOnly))
            else ([Frame (StartPing index), PingCall (if l = [] then stored p index else l),
                   Frame (GotPing index elapse)], Returned err))"
proof (cases "l = []")
  case True
  with assms(2) have "index_links p index = Inr (stored p index)"
    by (simp add: index_links_in_range)
  with True assms(1,3) show ?thesis
    by (simp add: pingLink_def)
next
  case False
  with assms(1,3) show ?thesis
    by (simp add: pingLink_def)
qed


text \<open>\<open>testOne\<close> once its link resolves and the answer of the probe is known.\<close>

lemma testOne_unfold:
  assumes "link \<noteq> [] \<or> (0 \<le> index \<and> index < int (length (Links_PT p)))"
  shows "testOne p ping download index link =
           (case pingLink p ping index (resolved p index link) of
              (a1, Panicked) \<Rightarrow> (a1, link = [], Panicked)
            | (a1, Returned (Some e)) \<Rightarrow> (a1, link = [], Returned (Some e))
            | (a1, Returned None) \<Rightarrow>
                (let (samples, speed, err) = download (resolved p index link) (Timeout (Options p))
                 in (a1 @ [Frame (StartSpeed index),
                           StartConsumer (aggregate index 0 [] samples),
                           DownloadCall (resolved p index link) (Timeout (Options p))]
                        @ (if speed < 1 then [Frame (sentinel index)] else []),
                     link = [], Returned err)))"
proof (cases "link = []")
  case True
  with assms have "index_links p index = Inr (stored p index)"
    by (simp add: index_links_in_range)
  then show ?thesis
    unfolding True
    by (simp add: testOne_def resolved_def SplitN2_0
        cong: prod.case_cong outcome.case_cong option.case_cong)
next
  case False
  then show ?thesis
    by (simp add: testOne_def resolved_def cong: prod.case_cong outcome.case_cong option.case_cong)
qed

text \<open>
  Where a probe that reports less than 1 ms also reports an error, a pipeline in ping-only
  mode or with such a probe writes exactly \<open>startping\<close>, \<open>gotping\<close>, the sentinel and
  \<open>endone\<close>, and no \<open>startspeed\<close> (the mode is not speed-only and the link resolves).
\<close>

lemma pipeline_ping_short_circuit:
  assumes "SpeedTestMode (Options p) \<noteq> SpeedOnly"
    and "link \<noteq> [] \<or> (0 \<le> index \<and> index < int (length (Links_PT p)))"
    and "ping (probed p index link) = (elapse, err)"
    and "SpeedTestMode (Options p) = PingOnly \<or> elapse < 1"
    and "elapse < 1 \<longrightarrow> err \<noteq> None"
  shows "pipeline p ping download index link
           = [StartPing index, GotPing index elapse, GotSpeed index (- 1) (- 1) 0, EndOne index]
       \<and> StartSpeed index \<notin> set (pipeline p ping download index link)"
proof -
  let ?l = "resolved p index link"
  have range: "?l \<noteq> [] \<or> (0 \<le> index \<and> index < int (length (Links_PT p)))"
    using assms(2) by (auto simp: resolved_def)
  have probe: "ping (if ?l = [] then stored p index else ?l) = (elapse, err)"
    using assms(3) by (simp add: probed_def)
  note pl = pingLink_probe [of p ?l index ping elapse err, OF assms(1) range probe]
  have "\<exists>e. pingLink p ping index ?l
      = ([Frame (StartPing index), PingCall (probed p index link),
          Frame (GotPing index elapse), Frame (sentinel index)], Returned (Some e))"
  proof (cases "elapse < 1")
    case True
    with assms(5) obtain y where "err = Some y" by auto
    with True pl show ?thesis by (simp add: probed_def)
  next
    case False
    with assms(4) have "SpeedTestMode (Options p) = PingOnly" by simp
    with False pl show ?thesis by (simp add: probed_def)
  qed
  then obtain e where "pingLink p ping index ?l
      = ([Frame (StartPing index), PingCall (probed p index link),
          Frame (GotPing index elapse), Frame (sentinel index)], Returned (Some e))"
    by blast
  then have "pipeline p ping download index link
           = [StartPing index, GotPing index elapse, GotSpeed index (- 1) (- 1) 0, EndOne index]"
    by (simp add: pipeline_def testOne_unfold [OF assms(2)] sentinel_def)
  then show ?thesis by simp
qed

text \<open>
  C6. With a mode other than speed-only, a pipeline in ping-only mode or whose probe reports
  less than 1 ms writes \<open>startping\<close>, \<open>gotping\<close>, the sentinel and \<open>endone\<close>, and never
  \<open>startspeed\<close>. The code breaks this when the probe reports less than 1 ms without an
  error: \<open>pingLink\<close> writes the sentinel and returns the probe's error, which is nil, before
  it looks at the mode, and \<open>testOne\<close> goes on to \<open>startspeed\<close> and the download, in
  ping-only mode and in full mode alike.
\<close>

theorem ping_zero_elapsed_runs_speed:
  "pipeline (legacy_batch PingOnly [''vmess://abc'']) (probe_const 0 None)
       (download_const [] 0 None) 0 []
     = [StartPing 0, GotPing 0 0, GotSpeed 0 (- 1) (- 1) 0, StartSpeed 0,
        GotSpeed 0 (- 1) (- 1) 0, EndOne 0]
   \<and> pipeline (legacy_batch [] [''vmess://abc'']) (probe_const 0 None)
       (download_const [] 7 None) 0 []
     = [StartPing 0, GotPing 0 0, GotSpeed 0 (- 1) (- 1) 0, StartSpeed 0, EndOne 0]
   \<and> fst (testOne (legacy_batch PingOnly [''vmess://abc'']) (probe_const 0 None)
       (download_const [] 0 None) 0 [])
     = [Frame (StartPing 0), PingCall ''vmess://abc'', Frame (GotPing 0 0),
        Frame (GotSpeed 0 (- 1) (- 1) 0), Frame (StartSpeed 0), StartConsumer [],
        DownloadCall ''vmess://abc'' (30 * Second), Frame (GotSpeed 0 (- 1) (- 1) 0)]"
  by (simp add: pipeline_def testOne_def pingLink_def legacy_batch_def probe_const_def
      download_const_def index_links_def SplitN2_def PingOnly_def SpeedOnly_def sentinel_def)

lemma pingLink_calls:
  assumes "l \<noteq> [] \<or> (0 \<le> index \<and> index < int (length (Links_PT p)))"
    and "a \<in> set (fst (pingLink p ping index l))"
  shows "(\<forall>x t. a \<noteq> DownloadCall x t) \<and> (\<forall>x. a = PingCall x \<longrightarrow> x = (if l = [] then stored p index else l))"
proof (cases "SpeedTestMode (Options p) = SpeedOnly")
  case True
  with assms(2) show ?thesis by (simp add: pingLink_def)
next
  case False
  obtain elapse err where pr: "ping (if l = [] then stored p index else l) = (elapse, err)"
    by (cases "ping (if l = [] then stored p index else l)")
  show ?thesis
    using assms(2) pingLink_probe [of p l index ping elapse err, OF False assms(1) pr]
    by (auto split: if_splits)
qed

text \<open>
  C10 (as amended). Started without a link of its own, \<open>testOne\<close> hands the throughput
  primitive the stored link up to its first caret, and the probe the same prefix unless the
  prefix is empty, in which case \<open>pingLink\<close> falls back to the whole stored link.
\<close>

theorem testOne_tests_prefix:
  assumes "0 \<le> index" and "index < int (length (Links_PT p))"
  shows "(\<forall>l t. DownloadCall l t \<in> set (fst (testOne p ping download index []))
            \<longrightarrow> l = before_caret (stored p index))
       \<and> (\<forall>l. PingCall l \<in> set (fst (testOne p ping download index []))
            \<longrightarrow> l = (if before_caret (stored p index) = [] then stored p index
                       else before_caret (stored p index)))
       \<and> CHR ''^'' \<notin> set (before_caret (stored p index))"
proof -
  let ?l = "before_caret (stored p index)"
  have rng: "[] \<noteq> ([]::string) \<or> (0 \<le> index \<and> index < int (length (Links_PT p)))"
    using assms by simp
  have rng': "?l \<noteq> [] \<or> (0 \<le> index \<and> index < int (length (Links_PT p)))"
    using assms by simp
  obtain a1 r where pl: "pingLink p ping index ?l = (a1, r)"
    by (cases "pingLink p ping index ?l")
  have a1: "(\<forall>x t. a \<noteq> DownloadCall x t) \<and> (\<forall>x. a = PingCall x \<longrightarrow> x = (if ?l = [] then stored p index else ?l))"
    if "a \<in> set a1" for a
    using pingLink_calls [OF rng', of a ping] that pl by simp
  obtain samples speed err where dl: "download ?l (Timeout (Options p)) = (samples, speed, err)"
    by (cases "download ?l (Timeout (Options p))")
  have acts: "set (fst (testOne p ping download index []))
                \<subseteq> set a1 \<union> {DownloadCall ?l (Timeout (Options p))} \<union> range Frame
                    \<union> range StartConsumer"
    using pl dl
    by (auto simp: testOne_unfold [OF rng] resolved_def split: outcome.splits option.splits)
  have "l = ?l" if "DownloadCall l t \<in> set (fst (testOne p ping download index []))" for l t
    using that acts a1 by blast
  moreover have "l = (if ?l = [] then stored p index else ?l)"
    if "PingCall l \<in> set (fst (testOne p ping download index []))" for l
    using that acts a1 by blast
  ultimately show ?thesis
    using before_caret_no_caret by blast
qed

theorem testOne_tests_prefix_witness:
  "DownloadCall ''vmess://abc^tail'' (30 * Second)
     \<notin> set (fst (testOne (legacy_batch [] [''vmess://abc^tail''])
              (probe_const 7 None) (download_const [] 5 None) 0 []))
   \<and> PingCall ''vmess://abc^tail''
     \<notin> set (fst (testOne (legacy_batch [] [''vmess://abc^tail''])
              (probe_const 7 None) (download_const [] 5 None) 0 []))"
proof -
  have h1: "0 \<le> (0::int)" by simp
  have h2: "0 < int (length (Links_PT (legacy_batch [] [''vmess://abc^tail''])))"
    by (simp add: legacy_batch_def)
  have bc: "before_caret (stored (legacy_batch [] [''vmess://abc^tail'']) 0) = ''vmess://abc''"
    by (simp add: before_caret_def stored_def legacy_batch_def)
  show ?thesis
    using testOne_tests_prefix [OF h1 h2, of "probe_const 7 None" "download_const [] 5 None"]
    unfolding bc by auto
qed

text \<open>
  C10 as stated fails for a stored link that begins with a caret: the prefix is empty, so
  the probe is called with the whole stored link, caret and suffix included.
\<close>

theorem caret_first_reaches_probe:
  "fst (testOne (retest_batch [1, 1] [[], ''^vmess://abc'']) (probe_const 7 None)
         (download_const [] 5 None) 1 [])
     = [Frame (StartPing 1), PingCall ''^vmess://abc'', Frame (GotPing 1 7),
        Frame (StartSpeed 1), StartConsumer [], DownloadCall [] (30 * Second)]"
  by (simp add: testOne_def pingLink_def retest_batch_def probe_const_def
      download_const_def index_links_def SplitN2_def PingOnly_def SpeedOnly_def)

subsection \<open>The legacy example\<close>

lemmas pattern_defs =
  MatchString_def url_re_def link_re_def vmess_ssr_re_def ss_trojan_re_def ss_trojan_scheme_def
  suffix_re_def port_re_def
  chr_def byte_def ci_def to_upper_def is_lower_def is_upper_def is_digit_def in_range_def
  token_def token_ascii_def long_s_def kelvin_def dot_def non_space_def query_or_fragment_def
  not_at_slash_nl_def not_colon_slash_nl_def

lemma parseLinks_vmess_abc: "parseLinks fetch ''vmess://abc'' = Some (Inr [''vmess://abc''])"
  by (subst parseLinks.simps) (simp add: pattern_defs)

text \<open>
  C4 (as amended). The text \<open>vmess://abc^Group1^^^^3^30\<close> is not JSON, so it takes the
  legacy path; its parameter segment has six fields and \<open>parseOptions\<close> rejects it.
  With the seven fields the format has, \<open>vmess://abc^Group1^^^^^3^30\<close>, parsing yields
  the one link \<open>vmess://abc\<close>, group \<open>Group1\<close>, concurrency 3, a timeout of 30 seconds
  and test mode ALL.
\<close>

theorem parseMessage_legacy_example:
  assumes "unmarshal ''vmess://abc^Group1^^^^3^30'' = Inl e"
    and "unmarshal ''vmess://abc^Group1^^^^^3^30'' = Inl e'"
  shows "parseMessage unmarshal fetch ''vmess://abc^Group1^^^^3^30'' = Some (Inl ErrInvalidData)
       \<and> parseMessage unmarshal fetch ''vmess://abc^Group1^^^^^3^30''
           = Some (Inr ([''vmess://abc''],
                \<lparr>GroupName = ''Group1'', SpeedTestMode = [], PingMethod = [], SortMethod = [],
                 Concurrency = 3, TestMode = ALLTEST, TestIDs = [], Timeout = 30 * Second,
                 Links = []\<rparr>))"
proof -
  have six: "parseOptions ''Group1^^^^3^30'' = Inl ErrInvalidData"
    by (simp add: parseOptions_def Split_def)
  have seven: "parseOptions ''Group1^^^^^3^30''
      = Inr \<lparr>GroupName = ''Group1'', SpeedTestMode = [], PingMethod = [], SortMethod = [],
             Concurrency = 3, TestMode = ALLTEST, TestIDs = [], Timeout = 30 * Second,
             Links = []\<rparr>"
    by (simp add: parseOptions_def Split_def Atoi_def is_digit_def digit_val_def
        default_group_def wrap64_def Second_def)
  show ?thesis
    using assms six seven
    by (simp add: parseMessage_def parseRetestMessage_def SplitN2_def parseLinks_vmess_abc)
qed

theorem parseMessage_legacy_example_witness:
  "parseMessage (\<lambda>_. Inl ErrJSON) (\<lambda>_. Inl ErrFetch) ''vmess://abc^Group1^^^^^3^30''
     = Some (Inr ([''vmess://abc''],
          \<lparr>GroupName = ''Group1'', SpeedTestMode = [], PingMethod = [], SortMethod = [],
           Concurrency = 3, TestMode = ALLTEST, TestIDs = [], Timeout = 30 * Second,
           Links = []\<rparr>))"
  using parseMessage_legacy_example [of "\<lambda>_. Inl ErrJSON" ErrJSON ErrJSON "\<lambda>_. Inl ErrFetch"]
  by simp

text \<open>
  C4 as stated fails: the message of the example is rejected as invalid data.
\<close>

theorem parseMessage_six_fields_rejected:
  "parseMessage (\<lambda>_. Inl ErrJSON) (\<lambda>_. Inl ErrFetch) ''vmess://abc^Group1^^^^3^30''
     = Some (Inl ErrInvalidData)"
  by (simp add: parseMessage_def parseRetestMessage_def SplitN2_def parseLinks_vmess_abc
      parseOptions_def Split_def)

subsection \<open>The scheduler\<close>

lemma reachable_run:
  "reachable p ping download c \<Longrightarrow> reachable p ping download (run p ping download sch c)"
proof (induction sch arbitrary: c)
  case Nil
  then show ?case by simp
next
  case (Cons who sch)
  show ?case
  proof (cases who)
    case None
    show ?thesis
    proof (cases "main_step p ping download c")
      case None
      with \<open>who = None\<close> Cons.prems show ?thesis by simp
    next
      case (Some c')
      then have "reachable p ping download c'"
        using Cons.prems by (blast intro: reach_step step_main)
      with Some \<open>who = None\<close> Cons.IH show ?thesis by simp
    qed
  next
    case (Some k)
    show ?thesis
    proof (cases "thread_step k c")
      case None
      with \<open>who = Some k\<close> Cons.prems show ?thesis by simp
    next
      case (Some c')
      then have "reachable p ping download c'"
        using Cons.prems by (blast intro: reach_step step_thread)
      with Some \<open>who = Some k\<close> Cons.IH show ?thesis by simp
    qed
  qed
qed

text \<open>
  C7. With an empty link list the run writes the one error frame and returns the failure
  at once: no goroutine is started and no \<open>started\<close>, \<open>gotserver\<close> or \<open>eof\<close> frame
  is ever written.
\<close>

theorem testAll_empty:
  assumes "Links_PT p = []" and "reachable p ping download c"
  shows "frames c = [SPEEDTEST_ERROR_NONODES] \<and> pc c = MReturn (Some ErrNoProfile)
       \<and> threads c = [] \<and> Started \<notin> set (frames c) \<and> Eof \<notin> set (frames c)
       \<and> (\<forall>i l g. GotServer i l g \<notin> set (frames c))"
proof -
  have "c = testAll_init p"
    using assms(2)
  proof (induction rule: reachable.induct)
    case reach_init
    show ?case by simp
  next
    case (reach_step c c')
    have "main_step p ping download (testAll_init p) = None"
      using assms(1) by (simp add: main_step_def testAll_init_def)
    moreover have "thread_step k (testAll_init p) = None" for k
      using assms(1) by (simp add: thread_step_def testAll_init_def)
    ultimately show ?case
      using reach_step by (auto elim: step.cases)
  qed
  then show ?thesis
    using assms(1) by (simp add: testAll_init_def)
qed

theorem testAll_empty_witness:
  "frames (run (legacy_batch [] []) (probe_const 7 None) (download_const [] 5 None)
             [None, Some 0, None] (testAll_init (legacy_batch [] [])))
     = [SPEEDTEST_ERROR_NONODES]"
proof -
  have "Links_PT (legacy_batch [] []) = []"
    by (simp add: legacy_batch_def)
  then show ?thesis
    using testAll_empty [OF _ reachable_run [OF reach_init, of "legacy_batch [] []"
        "probe_const 7 None" "download_const [] 5 None" "[None, Some 0, None]"]]
    by blast
qed

subsection \<open>The wait group of a RETEST batch\<close>

lemma frames_of_mem: "e \<in> set (frames_of as) \<longleftrightarrow> Frame e \<in> set as"
  by (induction as rule: frames_of.induct) auto

lemma aggregate_gotspeed: "e \<in> set (aggregate index mx sp ss) \<Longrightarrow> is_gotspeed e"
  by (induction ss arbitrary: mx sp) (auto simp: Let_def split: if_splits)

lemma pingLink_no_eof: "Frame Eof \<notin> set (fst (pingLink p ping index l))"
  by (auto simp: pingLink_def sentinel_def Let_def split: sum.splits prod.splits if_splits)

lemma pingLink_no_consumer: "StartConsumer es \<notin> set (fst (pingLink p ping index l))"
  by (auto simp: pingLink_def sentinel_def Let_def split: sum.splits prod.splits if_splits)

lemma testOne_no_eof: "Frame Eof \<notin> set (fst (testOne p ping download index link))"
proof -
  have pl: "pingLink p ping index l = (a1, r) \<Longrightarrow> Frame Eof \<notin> set a1" for l a1 r
    using pingLink_no_eof [of p ping index l] by simp
  show ?thesis
    by (auto simp: testOne_def sentinel_def Let_def dest: pl
        split: sum.splits prod.splits outcome.splits option.splits if_splits)
qed

lemma testOne_consumer_no_eof:
  "StartConsumer es \<in> set (fst (testOne p ping download index link)) \<Longrightarrow> Eof \<notin> set es"
proof -
  have agg: "Eof \<notin> set (aggregate index 0 [] ss)" for ss
    using aggregate_gotspeed [of Eof index 0 "[]" ss] by auto
  have pl: "pingLink p ping index l = (a1, r) \<Longrightarrow> StartConsumer es \<notin> set a1" for l a1 r
    using pingLink_no_consumer [of es p ping index l] by simp
  show "StartConsumer es \<in> set (fst (testOne p ping download index link)) \<Longrightarrow> Eof \<notin> set es"
    using agg
    by (auto simp: testOne_def sentinel_def Let_def dest: pl
        split: sum.splits prod.splits outcome.splits option.splits if_splits)
qed

lemma steps_of_mem:
  "WEmit e \<in> set (steps_of as) \<longleftrightarrow> Frame e \<in> set as"
  "WSpawn es \<in> set (steps_of as) \<longleftrightarrow> StartConsumer es \<in> set as"
  "WDone \<notin> set (steps_of as)" "WPanic \<notin> set (steps_of as)" "WRelease \<notin> set (steps_of as)"
  by (induction as rule: steps_of.induct) auto

lemma testOne_deferred: "fst (snd (testOne p ping download index link)) = (link = [])"
  by (auto simp: testOne_def Let_def split: sum.splits prod.splits outcome.splits option.splits)

lemma worker_no_eof: "WEmit Eof \<notin> set (worker p ping download ident link)"
proof -
  obtain acts d r where t: "testOne p ping download ident link = (acts, d, r)"
    by (cases "testOne p ping download ident link")
  then have "Frame Eof \<notin> set acts"
    using testOne_no_eof [of p ping download ident link] by simp
  then show ?thesis
    using t by (auto simp: worker_def steps_of_mem split: outcome.splits)
qed

lemma worker_spawn_no_eof:
  "WSpawn es \<in> set (worker p ping download ident link) \<Longrightarrow> Eof \<notin> set es"
proof -
  assume w: "WSpawn es \<in> set (worker p ping download ident link)"
  obtain acts d r where t: "testOne p ping download ident link = (acts, d, r)"
    by (cases "testOne p ping download ident link")
  with w have "StartConsumer es \<in> set acts"
    by (auto simp: worker_def steps_of_mem split: outcome.splits if_splits)
  then show ?thesis
    using testOne_consumer_no_eof [of es p ping download ident link] t by simp
qed

lemma worker_no_done: "link \<noteq> [] \<Longrightarrow> WDone \<notin> set (worker p ping download ident link)"
proof -
  assume l: "link \<noteq> []"
  obtain acts d r where t: "testOne p ping download ident link = (acts, d, r)"
    by (cases "testOne p ping download ident link")
  then have "\<not> d"
    using testOne_deferred [of p ping download ident link] l by simp
  then show ?thesis
    using t by (auto simp: worker_def steps_of_mem split: outcome.splits)
qed


lemma retest_inv_init:
  assumes "Links_PT p \<noteq> []"
  shows "retest_inv (length (Links_PT p)) (testAll_init p)"
  using assms by (auto simp: retest_inv_def testAll_init_def)

lemma retest_inv_main:
  assumes n: "Links_PT p \<noteq> []"
    and ids: "TestIDs (Options p) \<noteq> []" and ls: "Links (Options p) \<noteq> []"
    and ne: "\<forall>l\<in>set (Links (Options p)). l \<noteq> []"
    and inv: "retest_inv (length (Links_PT p)) c"
    and st: "main_step p ping download c = Some c'"
  shows "retest_inv (length (Links_PT p)) c'"
proof -
  have nc: "\<not> crashed c"
    using st by (auto simp: main_step_def split: if_splits)
  show ?thesis
  proof (cases "pc c")
    case (MLoop i)
    show ?thesis
    proof (cases "i < length (Links_PT p)")
      case True
      show ?thesis
      proof (cases "dispatch p i")
        case (Inl e)
        with MLoop True st nc have "c' = c\<lparr>wg := wg c + 1, crashed := True\<rparr>"
          by (simp add: main_step_def)
        with inv show ?thesis by (simp add: retest_inv_def)
      next
        case (Inr il)
        obtain ident link where il: "il = (ident, link)" by (cases il)
        have "link \<in> set (Links (Options p))"
          using Inr il ids ls by (auto simp: dispatch_def split: if_splits)
        with ne have "link \<noteq> []" by blast
        moreover have "c' = c\<lparr>wg := wg c + 1, pc := MSend i ident link\<rparr>"
          using MLoop True st nc Inr il by (simp add: main_step_def)
        ultimately show ?thesis
          using inv MLoop nc True by (simp add: retest_inv_def)
      qed
    next
      case False
      with MLoop st nc have "c' = c\<lparr>pc := MWait\<rparr>"
        by (simp add: main_step_def)
      with inv MLoop nc False show ?thesis by (simp add: retest_inv_def)
    qed
  next
    case (MSend i ident link)
    with st nc have c': "c' = c\<lparr>guard := guard c + 1,
                        threads := threads c @ [worker p ping download ident link],
                        pc := MLoop (i + 1)\<rparr>"
      by (auto simp: main_step_def split: if_splits)
    have "link \<noteq> []" using inv MSend nc by (simp add: retest_inv_def)
    then have "WDone \<notin> set (worker p ping download ident link)"
      "WEmit Eof \<notin> set (worker p ping download ident link)"
      by (simp_all add: worker_no_done worker_no_eof)
    then show ?thesis
      using inv MSend nc c' by (auto simp: retest_inv_def dest: worker_spawn_no_eof)
  next
    case MWait
    with inv nc n have "wg c \<noteq> 0" by (simp add: retest_inv_def)
    with MWait st nc show ?thesis by (simp add: main_step_def)
  next
    case (MReturn r)
    with st nc show ?thesis by (simp add: main_step_def)
  qed
qed

lemma retest_inv_thread:
  assumes inv: "retest_inv n c" and st: "thread_step k c = Some c'"
  shows "retest_inv n c'"
proof -
  let ?ok = "\<lambda>t. WDone \<notin> set t \<and> WEmit Eof \<notin> set t \<and> (\<forall>es. WSpawn es \<in> set t \<longrightarrow> Eof \<notin> set es)"
  from st have nc: "\<not> crashed c" and k: "k < length (threads c)"
    by (auto simp: thread_step_def split: if_splits)
  from st nc k obtain s rest where t: "threads c ! k = s # rest"
    by (auto simp: thread_step_def split: list.splits)
  have all: "\<forall>t\<in>set (threads c). ?ok t"
    using inv by (simp add: retest_inv_def)
  have "threads c ! k \<in> set (threads c)" using k by simp
  with all have "?ok (s # rest)" unfolding t [symmetric] by blast
  then have s: "s \<noteq> WDone" "s \<noteq> WEmit Eof" "\<And>es. s = WSpawn es \<Longrightarrow> Eof \<notin> set es"
    and rest: "?ok rest"
    by auto
  have thr: "\<forall>t\<in>set ((threads c)[k := rest]). ?ok t"
  proof
    fix u assume "u \<in> set ((threads c)[k := rest])"
    then have "u \<in> insert rest (set (threads c))"
      using set_update_subset_insert by fast
    with all rest show "?ok u" by blast
  qed
  show ?thesis
  proof (cases s)
    case (WEmit e)
    with s have "e \<noteq> Eof" by simp
    moreover have "c' = c\<lparr>threads := (threads c)[k := rest], frames := frames c @ [e]\<rparr>"
      using st nc k t WEmit by (simp add: thread_step_def)
    ultimately show ?thesis
      using inv thr by (auto simp: retest_inv_def split: mainpc.splits)
  next
    case WDone
    with s show ?thesis by simp
  next
    case WRelease
    then have "c' = c\<lparr>threads := (threads c)[k := rest], guard := guard c - 1\<rparr>"
      using st nc k t by (simp add: thread_step_def)
    then show ?thesis
      using inv thr by (auto simp: retest_inv_def split: mainpc.splits)
  next
    case WPanic
    then have "c' = c\<lparr>threads := (threads c)[k := rest], crashed := True\<rparr>"
      using st nc k t by (simp add: thread_step_def)
    then show ?thesis
      using inv thr by (auto simp: retest_inv_def split: mainpc.splits)
  next
    case (WSpawn es)
    then have c': "c' = c\<lparr>threads := (threads c)[k := rest] @ [map WEmit es]\<rparr>"
      using st nc k t by (simp add: thread_step_def)
    have "Eof \<notin> set es" using s(3) WSpawn by simp
    then have "?ok (map WEmit es)" by auto
    with thr have "\<forall>t\<in>set ((threads c)[k := rest] @ [map WEmit es]). ?ok t"
      by simp
    then show ?thesis
      using inv unfolding c' by (auto simp: retest_inv_def split: mainpc.splits)
  qed
qed

lemma retest_inv_reachable:
  assumes "Links_PT p \<noteq> []" "TestIDs (Options p) \<noteq> []" "Links (Options p) \<noteq> []"
    and "\<forall>l\<in>set (Links (Options p)). l \<noteq> []"
    and "reachable p ping download c"
  shows "retest_inv (length (Links_PT p)) c"
  using assms(5)
proof (induction rule: reachable.induct)
  case reach_init
  show ?case by (rule retest_inv_init [OF assms(1)])
next
  case (reach_step c c')
  from reach_step.hyps(2) show ?case
  proof (cases rule: step.cases)
    case step_main
    then show ?thesis
      using retest_inv_main [OF assms(1-4) reach_step.IH] by blast
  next
    case (step_thread k)
    then show ?thesis
      using retest_inv_thread [OF reach_step.IH] by blast
  qed
qed


text \<open>
  C2. A batch of N links ends with exactly one \<open>eof\<close> after N \<open>endone\<close> frames, RETEST
  batches with explicit ids and links included. The code breaks this for RETEST batches:
  \<open>testOne\<close> defers \<open>p.wg.Done()\<close> only when it is called without a link, while
  \<open>testAll\<close> adds one to the wait group for every position. With explicit links, all
  non-empty, no goroutine ever has a \<open>Done\<close> to run, \<open>p.wg.Wait()\<close> never returns and
  no \<open>eof\<close> frame is written, on any schedule.
\<close>

theorem retest_never_eof:
  assumes "Links_PT p \<noteq> []" and "TestIDs (Options p) \<noteq> []" and "Links (Options p) \<noteq> []"
    and "\<forall>l\<in>set (Links (Options p)). l \<noteq> []"
    and "reachable p ping download c"
  shows "Eof \<notin> set (frames c) \<and> (pc c = MWait \<longrightarrow> main_step p ping download c = None)
       \<and> (\<forall>t\<in>set (threads c). WDone \<notin> set t)"
proof -
  have inv: "retest_inv (length (Links_PT p)) c"
    by (rule retest_inv_reachable [OF assms])
  have "main_step p ping download c = None" if "pc c = MWait"
  proof (cases "crashed c")
    case True
    then show ?thesis by (simp add: main_step_def)
  next
    case False
    with inv that assms(1) have "wg c \<noteq> 0" by (simp add: retest_inv_def)
    with that show ?thesis by (simp add: main_step_def)
  qed
  with inv show ?thesis by (simp add: retest_inv_def)
qed

lemmas run_defs =
  main_step_def thread_step_def testAll_init_def worker_def dispatch_def testOne_def
  pingLink_def index_links_def SplitN2_def sentinel_def legacy_batch_def retest_batch_def
  probe_const_def download_const_def SpeedOnly_def PingOnly_def average_def quot_def wrap64_def

lemma retest_run_blocks:
  "run (retest_batch [0] [''vmess://abc'']) (probe_const 7 None) (download_const [5] 5 None)
       [None, None, None, Some 0, Some 0, Some 0, Some 0, Some 1, Some 0, Some 0, None]
       (testAll_init (retest_batch [0] [''vmess://abc'']))
     = \<lparr>frames = [Started, GotServer 0 ''vmess://abc'' ''Default Group'', StartPing 0,
                  GotPing 0 7, StartSpeed 0, GotSpeed 0 5 5 5, EndOne 0],
        pc = MWait, wg = 1, guard = 0, threads = [[], []], crashed = False\<rparr>"
  by (simp add: run_defs)

theorem retest_never_eof_witness:
  "Eof \<notin> set (frames (run (retest_batch [0] [''vmess://abc'']) (probe_const 7 None)
       (download_const [5] 5 None)
       [None, None, None, Some 0, Some 0, Some 0, Some 0, Some 1, Some 0, Some 0, None]
       (testAll_init (retest_batch [0] [''vmess://abc'']))))
   \<and> main_step (retest_batch [0] [''vmess://abc'']) (probe_const 7 None)
       (download_const [5] 5 None)
       (run (retest_batch [0] [''vmess://abc'']) (probe_const 7 None)
       (download_const [5] 5 None)
       [None, None, None, Some 0, Some 0, Some 0, Some 0, Some 1, Some 0, Some 0, None]
       (testAll_init (retest_batch [0] [''vmess://abc'']))) = None"
proof -
  let ?p = "retest_batch [0] [''vmess://abc'']"
  have h: "Links_PT ?p \<noteq> []" "TestIDs (Options ?p) \<noteq> []" "Links (Options ?p) \<noteq> []"
    "\<forall>l\<in>set (Links (Options ?p)). l \<noteq> []"
    by (simp_all add: retest_batch_def)
  have r: "reachable ?p (probe_const 7 None) (download_const [5] 5 None)
       (run ?p (probe_const 7 None) (download_const [5] 5 None)
         [None, None, None, Some 0, Some 0, Some 0, Some 0, Some 1, Some 0, Some 0, None]
         (testAll_init ?p))"
    by (rule reachable_run [OF reach_init])
  from retest_never_eof [OF h r] show ?thesis
    unfolding retest_run_blocks by simp
qed

text \<open>
  Without explicit links the deferred \<open>Done\<close> runs when \<open>testOne\<close> returns, before the
  goroutine writes \<open>endone\<close>: the scheduler may write \<open>eof\<close> in between.
\<close>

lemma eof_may_overtake_endone:
  "frames (run (legacy_batch PingOnly [''vmess://abc'']) (probe_const 7 None)
       (download_const [] 0 None)
       [None, None, None, Some 0, Some 0, Some 0, Some 0, None, Some 0, Some 0]
       (testAll_init (legacy_batch PingOnly [''vmess://abc''])))
     = [Started, GotServer 0 ''vmess://abc'' ''Group1'', StartPing 0, GotPing 0 7,
        GotSpeed 0 (- 1) (- 1) 0, Eof, EndOne 0]"
  by (simp add: run_defs)

subsection \<open>The dispatch loop and the explicit ids and links\<close>

lemma main_step_loop:
  assumes "TestIDs (Options p) \<noteq> []" and "Links (Options p) \<noteq> []"
    and "\<not> crashed c" and "pc c = MLoop i"
  shows "main_step p ping download c =
           Some (if i < length (Links_PT p)
                 then (if i < length (TestIDs (Options p)) \<and> i < length (Links (Options p))
                       then c\<lparr>wg := wg c + 1,
                              pc := MSend i (TestIDs (Options p) ! i) (Links (Options p) ! i)\<rparr>
                       else c\<lparr>wg := wg c + 1, crashed := True\<rparr>)
                 else c\<lparr>pc := MWait\<rparr>)"
  using assms by (simp add: main_step_def dispatch_def)

lemma bounds_inv_reachable:
  assumes "TestIDs (Options p) \<noteq> []" and "Links (Options p) \<noteq> []"
    and "reachable p ping download c"
  shows "bounds_inv p c"
  using assms(3)
proof (induction rule: reachable.induct)
  case reach_init
  show ?case by (simp add: bounds_inv_def testAll_init_def)
next
  case (reach_step c c')
  from reach_step.hyps(2) show ?case
  proof (cases rule: step.cases)
    case step_main
    then have nc: "\<not> crashed c" by (auto simp: main_step_def split: if_splits)
    show ?thesis
    proof (cases "pc c")
      case (MLoop i)
      from step_main main_step_loop [OF assms(1,2) nc MLoop, of ping download]
      show ?thesis
        using reach_step.IH MLoop by (auto simp: bounds_inv_def Let_def split: if_splits)
    next
      case (MSend i ident link)
      with step_main nc show ?thesis
        using reach_step.IH by (auto simp: bounds_inv_def Let_def main_step_def split: if_splits)
    next
      case MWait
      with step_main nc show ?thesis
        using reach_step.IH by (auto simp: bounds_inv_def Let_def main_step_def split: if_splits)
    next
      case (MReturn r)
      with step_main nc show ?thesis by (simp add: main_step_def)
    qed
  next
    case (step_thread k)
    then have "pc c' = pc c"
      by (auto simp: thread_step_def Let_def split: if_splits list.splits wstep.splits)
    with reach_step.IH show ?thesis by (simp add: bounds_inv_def)
  qed
qed

lemma thread_step_one:
  assumes "\<not> crashed c" and "k < length (threads c)" and "threads c ! k = s # ws"
    and "s \<noteq> WPanic"
  shows "\<exists>c'. thread_step k c = Some c' \<and> \<not> crashed c' \<and> pc c' = pc c
           \<and> k < length (threads c') \<and> threads c' ! k = ws
           \<and> guard c' = guard c - (if s = WRelease then 1 else 0)"
  using assms by (cases s) (simp_all add: thread_step_def nth_append)

lemma thread_finish:
  assumes "reachable p ping download c" and "\<not> crashed c" and "k < length (threads c)"
    and "threads c ! k = ws" and "WPanic \<notin> set ws"
  shows "\<exists>c'. reachable p ping download c' \<and> \<not> crashed c' \<and> pc c' = pc c
           \<and> guard c' = guard c - length (filter (\<lambda>s. s = WRelease) ws)"
  using assms
proof (induction ws arbitrary: c)
  case Nil
  then show ?case by (intro exI [of _ c]) simp
next
  case (Cons s ws)
  from Cons.prems(5) have s: "s \<noteq> WPanic" and ws: "WPanic \<notin> set ws" by auto
  from thread_step_one [OF Cons.prems(2,3,4) s] obtain c1
    where c1: "thread_step k c = Some c1" "\<not> crashed c1" "pc c1 = pc c"
      "k < length (threads c1)" "threads c1 ! k = ws"
      "guard c1 = guard c - (if s = WRelease then 1 else 0)"
    by blast
  have "reachable p ping download c1"
    using Cons.prems(1) c1(1) by (blast intro: reach_step step_thread)
  from Cons.IH [OF this c1(2,4,5) ws] obtain c'
    where c': "reachable p ping download c'" "\<not> crashed c'" "pc c' = pc c1"
      "guard c' = guard c1 - length (filter (\<lambda>s. s = WRelease) ws)"
    by blast
  have "guard c' = guard c - length (filter (\<lambda>s. s = WRelease) (s # ws))"
    using c'(4) c1(6) by simp
  with c'(1,2,3) c1(3) show ?case by (intro exI [of _ c']) simp
qed

lemma pingLink_not_panicked:
  assumes "l \<noteq> [] \<or> (0 \<le> index \<and> index < int (length (Links_PT p)))"
  shows "snd (pingLink p ping index l) \<noteq> Panicked"
  using assms
  by (auto simp: pingLink_def index_links_def Let_def split: prod.splits if_splits)

lemma testOne_not_panicked:
  assumes "link \<noteq> [] \<or> (0 \<le> index \<and> index < int (length (Links_PT p)))"
  shows "snd (snd (testOne p ping download index link)) \<noteq> Panicked"
proof -
  have "resolved p index link \<noteq> [] \<or> (0 \<le> index \<and> index < int (length (Links_PT p)))"
    using assms by (auto simp: resolved_def)
  from pingLink_not_panicked [OF this, of ping] show ?thesis
    by (auto simp: testOne_unfold [OF assms] Let_def
        split: prod.splits outcome.splits option.splits)
qed

lemma worker_finishes:
  assumes "link \<noteq> [] \<or> (0 \<le> ident \<and> ident < int (length (Links_PT p)))"
  shows "WPanic \<notin> set (worker p ping download ident link)"
    and "length (filter (\<lambda>s. s = WRelease) (worker p ping download ident link)) = 1"
proof -
  obtain acts d r where t: "testOne p ping download ident link = (acts, d, r)"
    by (cases "testOne p ping download ident link")
  with testOne_not_panicked [OF assms, of ping download] obtain e where r: "r = Returned e"
    by (cases r) auto
  have w: "worker p ping download ident link
             = steps_of acts @ (if d then [WDone] else []) @ [WEmit (EndOne ident), WRelease]"
    using t r by (simp add: worker_def)
  show "WPanic \<notin> set (worker p ping download ident link)"
    unfolding w by (simp add: steps_of_mem)
  have "filter (\<lambda>s. s = WRelease) (steps_of acts) = []"
    using steps_of_mem(5) [of acts] by (auto simp: filter_empty_conv)
  then show "length (filter (\<lambda>s. s = WRelease) (worker p ping download ident link)) = 1"
    unfolding w by simp
qed


lemma reach_loop:
  assumes conc: "1 \<le> Concurrency (Options p)"
    and ids: "TestIDs (Options p) \<noteq> []" and ls: "Links (Options p) \<noteq> []"
    and safe: "\<forall>j. j < length (Links_PT p) \<longrightarrow> j < length (TestIDs (Options p))
                 \<longrightarrow> j < length (Links (Options p))
                 \<longrightarrow> Links (Options p) ! j \<noteq> []
                     \<or> (0 \<le> TestIDs (Options p) ! j
                         \<and> TestIDs (Options p) ! j < int (length (Links_PT p)))"
    and n: "Links_PT p \<noteq> []"
  shows "i \<le> length (Links_PT p) \<Longrightarrow> i \<le> length (TestIDs (Options p))
           \<Longrightarrow> i \<le> length (Links (Options p))
           \<Longrightarrow> \<exists>c. reachable p ping download c \<and> \<not> crashed c \<and> pc c = MLoop i \<and> guard c = 0"
proof (induction i)
  case 0
  have "reachable p ping download (testAll_init p)" by (rule reach_init)
  moreover have "\<not> crashed (testAll_init p)" "pc (testAll_init p) = MLoop 0"
    "guard (testAll_init p) = 0"
    using conc n by (simp_all add: testAll_init_def)
  ultimately show ?case by blast
next
  case (Suc i)
  then have i: "i < length (Links_PT p)" "i < length (TestIDs (Options p))"
    "i < length (Links (Options p))"
    by simp_all
  from Suc.IH i obtain c where c: "reachable p ping download c" "\<not> crashed c"
    "pc c = MLoop i" "guard c = 0"
    by auto
  let ?ident = "TestIDs (Options p) ! i" and ?link = "Links (Options p) ! i"
  let ?c1 = "c\<lparr>wg := wg c + 1, pc := MSend i ?ident ?link\<rparr>"
  let ?c2 = "?c1\<lparr>guard := guard ?c1 + 1,
                 threads := threads ?c1 @ [worker p ping download ?ident ?link],
                 pc := MLoop (i + 1)\<rparr>"
  have "main_step p ping download c = Some ?c1"
    using main_step_loop [OF ids ls c(2,3), of ping download] i by simp
  then have r1: "reachable p ping download ?c1"
    using c(1) by (blast intro: reach_step step_main)
  have "main_step p ping download ?c1 = Some ?c2"
    using c(2,4) conc by (simp add: main_step_def)
  then have r2: "reachable p ping download ?c2"
    using r1 by (blast intro: reach_step step_main)
  have ok: "?link \<noteq> [] \<or> (0 \<le> ?ident \<and> ?ident < int (length (Links_PT p)))"
    using safe i by blast
  have t: "\<not> crashed ?c2" "length (threads c) < length (threads ?c2)"
    "threads ?c2 ! length (threads c) = worker p ping download ?ident ?link"
    using c(2) by simp_all
  from thread_finish [OF r2 t worker_finishes(1) [OF ok]] obtain c'
    where c': "reachable p ping download c'" "\<not> crashed c'" "pc c' = pc ?c2"
      "guard c' = guard ?c2
         - length (filter (\<lambda>s. s = WRelease) (worker p ping download ?ident ?link))"
    by blast
  have "guard c' = 0" "pc c' = MLoop (Suc i)"
    using c'(3,4) c(4) worker_finishes(2) [OF ok, of ping download] by simp_all
  with c'(1,2) show ?case by blast
qed


text \<open>
  C8. With non-empty explicit ids and explicit links, the dispatch loop reads
  \<open>TestIDs[i]\<close> and \<open>Links[i]\<close> of the options at every position \<open>i\<close> of the batch's
  link list it comes to: the step of the loop at position \<open>i\<close> hands exactly these two to
  the goroutine, and panics when either sequence is too short. So the loop gets past a
  position, and out of the loop, only if the ids (and the links) have every position up to
  there. Where no goroutine panics on its own and the concurrency is at least 1, some
  schedule brings the loop to every position up to the first missing one, and there the
  read out of range happens. The RETEST parser hands ids and links on as decoded, whatever
  their lengths.
\<close>

theorem dispatch_loop_bounds:
  assumes "TestIDs (Options p) \<noteq> []" and "Links (Options p) \<noteq> []"
  shows "(\<forall>c i. \<not> crashed c \<longrightarrow> pc c = MLoop i \<longrightarrow>
            main_step p ping download c =
              Some (if i < length (Links_PT p)
                    then (if i < length (TestIDs (Options p)) \<and> i < length (Links (Options p))
                          then c\<lparr>wg := wg c + 1,
                                 pc := MSend i (TestIDs (Options p) ! i) (Links (Options p) ! i)\<rparr>
                          else c\<lparr>wg := wg c + 1, crashed := True\<rparr>)
                    else c\<lparr>pc := MWait\<rparr>))
       \<and> (\<forall>c. reachable p ping download c \<longrightarrow>
            (\<forall>i. pc c = MLoop i \<longrightarrow>
               i \<le> length (TestIDs (Options p)) \<and> i \<le> length (Links (Options p)))
            \<and> (pc c = MWait \<or> (\<exists>r. pc c = MReturn r) \<longrightarrow>
               length (Links_PT p) \<le> length (TestIDs (Options p))
               \<and> length (Links_PT p) \<le> length (Links (Options p))))
       \<and> (1 \<le> Concurrency (Options p) \<longrightarrow> Links_PT p \<noteq> [] \<longrightarrow>
            (\<forall>j. j < length (Links_PT p) \<longrightarrow> j < length (TestIDs (Options p))
                 \<longrightarrow> j < length (Links (Options p))
                 \<longrightarrow> Links (Options p) ! j \<noteq> []
                     \<or> (0 \<le> TestIDs (Options p) ! j
                         \<and> TestIDs (Options p) ! j < int (length (Links_PT p)))) \<longrightarrow>
            (\<forall>i. i \<le> length (Links_PT p) \<longrightarrow> i \<le> length (TestIDs (Options p))
                 \<longrightarrow> i \<le> length (Links (Options p))
                 \<longrightarrow> (\<exists>c. reachable p ping download c \<and> \<not> crashed c \<and> pc c = MLoop i))
            \<and> (length (TestIDs (Options p)) < length (Links_PT p)
                 \<or> length (Links (Options p)) < length (Links_PT p)
               \<longrightarrow> (\<exists>c. reachable p ping download c \<and> crashed c
                      \<and> pc c = MLoop (min (length (TestIDs (Options p)))
                                          (length (Links (Options p)))))))
       \<and> (\<forall>unmarshal message opts. unmarshal message = Inr opts \<longrightarrow> TestMode opts = RETEST \<longrightarrow>
             (\<exists>opts'. parseRetestMessage unmarshal message = Inr (Links opts, opts')
                \<and> TestIDs opts' = TestIDs opts \<and> Links opts' = Links opts))"
proof -
  let ?n = "length (Links_PT p)" and ?a = "length (TestIDs (Options p))"
    and ?b = "length (Links (Options p))"
  have one: "main_step p ping download c =
              Some (if i < ?n
                    then (if i < ?a \<and> i < ?b
                          then c\<lparr>wg := wg c + 1,
                                 pc := MSend i (TestIDs (Options p) ! i) (Links (Options p) ! i)\<rparr>
                          else c\<lparr>wg := wg c + 1, crashed := True\<rparr>)
                    else c\<lparr>pc := MWait\<rparr>)"
    if "\<not> crashed c" "pc c = MLoop i" for c i
    by (rule main_step_loop [OF assms that])
  have two: "(\<forall>i. pc c = MLoop i \<longrightarrow> i \<le> ?a \<and> i \<le> ?b)
            \<and> (pc c = MWait \<or> (\<exists>r. pc c = MReturn r) \<longrightarrow> ?n \<le> ?a \<and> ?n \<le> ?b)"
    if "reachable p ping download c" for c
    using bounds_inv_reachable [OF assms that] by (auto simp: bounds_inv_def Let_def)
  have three: "(\<forall>i. i \<le> ?n \<longrightarrow> i \<le> ?a \<longrightarrow> i \<le> ?b
                 \<longrightarrow> (\<exists>c. reachable p ping download c \<and> \<not> crashed c \<and> pc c = MLoop i))
            \<and> (?a < ?n \<or> ?b < ?n
               \<longrightarrow> (\<exists>c. reachable p ping download c \<and> crashed c \<and> pc c = MLoop (min ?a ?b)))"
    if conc: "1 \<le> Concurrency (Options p)" and n: "Links_PT p \<noteq> []"
      and safe: "\<forall>j. j < ?n \<longrightarrow> j < ?a \<longrightarrow> j < ?b
                 \<longrightarrow> Links (Options p) ! j \<noteq> []
                     \<or> (0 \<le> TestIDs (Options p) ! j \<and> TestIDs (Options p) ! j < int ?n)"
  proof (intro conjI allI impI)
    fix i assume "i \<le> ?n" "i \<le> ?a" "i \<le> ?b"
    from reach_loop [OF conc assms safe n this, of ping download]
    show "\<exists>c. reachable p ping download c \<and> \<not> crashed c \<and> pc c = MLoop i" by blast
  next
    assume short: "?a < ?n \<or> ?b < ?n"
    let ?m = "min ?a ?b"
    have m: "?m \<le> ?n" "?m \<le> ?a" "?m \<le> ?b" "?m < ?n" "\<not> (?m < ?a \<and> ?m < ?b)"
      using short by auto
    from reach_loop [OF conc assms safe n m(1,2,3), of ping download] obtain c
      where c: "reachable p ping download c" "\<not> crashed c" "pc c = MLoop ?m" by blast
    have "main_step p ping download c = Some (c\<lparr>wg := wg c + 1, crashed := True\<rparr>)"
      using one [OF c(2,3)] m(4,5) by simp
    then have "reachable p ping download (c\<lparr>wg := wg c + 1, crashed := True\<rparr>)"
      using c(1) by (blast intro: reach_step step_main)
    moreover have "crashed (c\<lparr>wg := wg c + 1, crashed := True\<rparr>)"
      "pc (c\<lparr>wg := wg c + 1, crashed := True\<rparr>) = MLoop ?m"
      using c(3) by simp_all
    ultimately show "\<exists>c. reachable p ping download c \<and> crashed c \<and> pc c = MLoop ?m"
      by blast
  qed
  have four: "\<exists>opts'. parseRetestMessage unmarshal message = Inr (Links opts, opts')
                \<and> TestIDs opts' = TestIDs opts \<and> Links opts' = Links opts"
    if "unmarshal message = Inr opts" "TestMode opts = RETEST" for unmarshal message opts
    using that by (simp add: parseRetestMessage_def Let_def)
  from one two three four show ?thesis by blast
qed

lemma short_ids_run:
  "run (retest_batch [2] [''ss://x'', ''trojan://y'']) (probe_const 7 None)
       (download_const [] 5 None)
       [None, None, Some 0, Some 0, Some 0, Some 0, Some 0, Some 0]
       (testAll_init (retest_batch [2] [''ss://x'', ''trojan://y'']))
     = \<lparr>frames = [Started, GotServer 0 ''ss://x'' ''Default Group'',
                  GotServer 1 ''trojan://y'' ''Default Group'', StartPing 2, GotPing 2 7,
                  StartSpeed 2, EndOne 2],
        pc = MLoop 1, wg = 1, guard = 0, threads = [[], []], crashed = False\<rparr>"
  by (simp add: run_defs)

theorem dispatch_loop_bounds_witness:
  "main_step (retest_batch [2] [''ss://x'', ''trojan://y'']) (probe_const 7 None)
       (download_const [] 5 None)
       (run (retest_batch [2] [''ss://x'', ''trojan://y'']) (probe_const 7 None)
         (download_const [] 5 None)
         [None, None, Some 0, Some 0, Some 0, Some 0, Some 0, Some 0]
         (testAll_init (retest_batch [2] [''ss://x'', ''trojan://y''])))
     = Some \<lparr>frames = [Started, GotServer 0 ''ss://x'' ''Default Group'',
                  GotServer 1 ''trojan://y'' ''Default Group'', StartPing 2, GotPing 2 7,
                  StartSpeed 2, EndOne 2],
        pc = MLoop 1, wg = 2, guard = 0, threads = [[], []], crashed = True\<rparr>"
proof -
  let ?p = "retest_batch [2] [''ss://x'', ''trojan://y'']"
  have h: "TestIDs (Options ?p) \<noteq> []" "Links (Options ?p) \<noteq> []"
    by (simp_all add: retest_batch_def)
  from dispatch_loop_bounds [OF h, of "probe_const 7 None" "download_const [] 5 None"]
  have "main_step ?p (probe_const 7 None) (download_const [] 5 None) c =
              Some (if i < length (Links_PT ?p)
                    then (if i < length (TestIDs (Options ?p)) \<and> i < length (Links (Options ?p))
                          then c\<lparr>wg := wg c + 1,
                                 pc := MSend i (TestIDs (Options ?p) ! i) (Links (Options ?p) ! i)\<rparr>
                          else c\<lparr>wg := wg c + 1, crashed := True\<rparr>)
                    else c\<lparr>pc := MWait\<rparr>)"
    if "\<not> crashed c" "pc c = MLoop i" for c i
    using that by blast
  from this [of "\<lparr>frames = [Started, GotServer 0 ''ss://x'' ''Default Group'',
                  GotServer 1 ''trojan://y'' ''Default Group'', StartPing 2, GotPing 2 7,
                  StartSpeed 2, EndOne 2],
        pc = MLoop 1, wg = 1, guard = 0, threads = [[], []], crashed = False\<rparr>" 1]
  show ?thesis
    unfolding short_ids_run by (simp add: retest_batch_def)
qed

subsection \<open>What the link pattern matches\<close>

lemma star_g_sound:
  assumes f: "\<And>s t. t \<in> set (f s) \<Longrightarrow> \<exists>w\<in>L. s = w @ t"
  shows "t \<in> set (star_g f n u) \<Longrightarrow> \<exists>ws. set ws \<subseteq> L \<and> u = concat ws @ t"
proof (induction n arbitrary: u)
  case 0
  then have "u = concat [] @ t" by simp
  then show ?case by (intro exI [of _ "[]"]) simp
next
  case (Suc n)
  from Suc.prems consider "t = u" | v where "v \<in> set (f u)" "t \<in> set (star_g f n v)"
    by auto
  then show ?case
  proof cases
    case 1
    then show ?thesis by (intro exI [of _ "[]"]) simp
  next
    case 2
    from f [OF 2(1)] obtain w where w: "w \<in> L" "u = w @ v" by blast
    from Suc.IH [OF 2(2)] obtain ws where ws: "set ws \<subseteq> L" "v = concat ws @ t" by blast
    from w ws show ?thesis by (intro exI [of _ "w # ws"]) simp
  qed
qed

lemma star_l_sound:
  assumes f: "\<And>s t. t \<in> set (f s) \<Longrightarrow> \<exists>w\<in>L. s = w @ t"
  shows "t \<in> set (star_l f n u) \<Longrightarrow> \<exists>ws. set ws \<subseteq> L \<and> u = concat ws @ t"
proof (induction n arbitrary: u)
  case 0
  then show ?case by (intro exI [of _ "[]"]) simp
next
  case (Suc n)
  from Suc.prems consider "t = u" | v where "v \<in> set (f u)" "t \<in> set (star_l f n v)"
    by auto
  then show ?case
  proof cases
    case 1
    then show ?thesis by (intro exI [of _ "[]"]) simp
  next
    case 2
    from f [OF 2(1)] obtain w where w: "w \<in> L" "u = w @ v" by blast
    from Suc.IH [OF 2(2)] obtain ws where ws: "set ws \<subseteq> L" "v = concat ws @ t" by blast
    from w ws show ?thesis by (intro exI [of _ "w # ws"]) simp
  qed
qed

lemma ms_sound: "t \<in> set (ms r s) \<Longrightarrow> \<exists>w\<in>lang r. s = w @ t"
proof (induction r arbitrary: s t)
  case (Cls P)
  then show ?case by (cases s) (auto split: if_splits)
next
  case (Seq a b)
  from Seq.prems obtain u where u: "u \<in> set (ms a s)" "t \<in> set (ms b u)" by auto
  from Seq.IH(1) [OF u(1)] obtain w1 where w1: "w1 \<in> lang a" "s = w1 @ u" by blast
  from Seq.IH(2) [OF u(2)] obtain w2 where w2: "w2 \<in> lang b" "u = w2 @ t" by blast
  have "w1 @ w2 \<in> lang (Seq a b)" using w1 w2 by auto
  moreover have "s = (w1 @ w2) @ t" using w1 w2 by simp
  ultimately show ?case by blast
next
  case (Alt a b)
  from Alt.prems consider "t \<in> set (ms a s)" | "t \<in> set (ms b s)" by auto
  then show ?case
  proof cases
    case 1
    from Alt.IH(1) [OF 1] show ?thesis by auto
  next
    case 2
    from Alt.IH(2) [OF 2] show ?thesis by auto
  qed
next
  case (Opt a)
  from Opt.prems consider "t \<in> set (ms a s)" | "t = s" by auto
  then show ?case
  proof cases
    case 1
    from Opt.IH [OF 1] show ?thesis by auto
  next
    case 2
    then show ?thesis by simp
  qed
next
  case (Plus a)
  from Plus.prems obtain v where v: "v \<in> set (ms a s)" "t \<in> set (star_g (ms a) (length s) v)"
    by auto
  from Plus.IH [OF v(1)] obtain w where w: "w \<in> lang a" "s = w @ v" by blast
  from star_g_sound [of "ms a" "lang a", OF Plus.IH v(2)]
  obtain ws where ws: "set ws \<subseteq> lang a" "v = concat ws @ t" by blast
  have "concat (w # ws) \<in> lang (Plus a)"
    using w ws by (simp only: lang.simps) (rule CollectI, rule exI [of _ "w # ws"], simp)
  moreover have "s = concat (w # ws) @ t" using w ws by simp
  ultimately show ?case by blast
next
  case (LazyPlus a)
  from LazyPlus.prems obtain v where v: "v \<in> set (ms a s)" "t \<in> set (star_l (ms a) (length s) v)"
    by auto
  from LazyPlus.IH [OF v(1)] obtain w where w: "w \<in> lang a" "s = w @ v" by blast
  from star_l_sound [of "ms a" "lang a", OF LazyPlus.IH v(2)]
  obtain ws where ws: "set ws \<subseteq> lang a" "v = concat ws @ t" by blast
  have "concat (w # ws) \<in> lang (LazyPlus a)"
    using w ws by (simp only: lang.simps) (rule CollectI, rule exI [of _ "w # ws"], simp)
  moreover have "s = concat (w # ws) @ t" using w ws by simp
  ultimately show ?case by blast
qed


lemma concat_singletons:
  "set ws \<subseteq> {[c] | c. P c} \<Longrightarrow> list_all P (concat ws) \<and> length (concat ws) = length ws"
  by (induction ws) auto

lemma lang_Plus_Cls:
  assumes "w \<in> lang (Plus (Cls P)) \<or> w \<in> lang (LazyPlus (Cls P))"
  shows "w \<noteq> [] \<and> list_all P w"
proof -
  from assms obtain ws where ws: "w = concat ws" "ws \<noteq> []" "set ws \<subseteq> {[c] | c. P c}"
    by auto
  from concat_singletons [OF ws(3)] have "list_all P w" "length w = length ws"
    using ws(1) by simp_all
  moreover from this(2) ws(2) have "w \<noteq> []" by auto
  ultimately show ?thesis by simp
qed

lemma lang_str: "lang (str cs) = {cs}"
  by (induction cs rule: str.induct) (auto simp: chr_def)

lemma lang_chr: "lang (chr c) = {[c]}"
  by (simp add: chr_def)

lemma lang_port_re:
  assumes "w \<in> lang port_re"
  shows "2 \<le> length w \<and> length w \<le> 5 \<and> list_all is_digit w"
  using assms by (auto simp: port_re_def Let_def)

lemma lang_suffix_re:
  assumes "w \<in> lang suffix_re"
  shows "\<exists>q suf. w = q # suf \<and> query_or_fragment q \<and> suf \<noteq> [] \<and> list_all non_space suf"
proof -
  from assms obtain u v where uv: "w = u @ v" "u \<in> lang (Cls query_or_fragment)"
      "v \<in> lang (Plus (Cls non_space))"
    unfolding suffix_re_def lang.simps(2) by blast
  from uv(2) obtain q where q: "u = [q]" "query_or_fragment q" by auto
  from lang_Plus_Cls [of v non_space] uv(3) have "v \<noteq> []" "list_all non_space v" by blast+
  with uv(1) q show ?thesis by simp
qed

lemma lang_SeqD: "w \<in> lang (Seq a b) \<Longrightarrow> \<exists>u v. w = u @ v \<and> u \<in> lang a \<and> v \<in> lang b"
  by auto

lemma lang_ss_trojan_re:
  assumes "w \<in> lang ss_trojan_re"
  shows "\<exists>sch cred host port q suf.
           w = sch @ ''://'' @ cred @ ''@'' @ host @ '':'' @ port @ q # suf
           \<and> sch \<in> lang ss_trojan_scheme
           \<and> cred \<noteq> [] \<and> list_all dot cred \<and> host \<noteq> [] \<and> list_all dot host
           \<and> 2 \<le> length port \<and> length port \<le> 5 \<and> list_all is_digit port
           \<and> query_or_fragment q \<and> suf \<noteq> [] \<and> list_all non_space suf"
proof -
  let ?r6 = "Seq port_re suffix_re"
  let ?r5 = "Seq (chr CHR '':'') ?r6"
  let ?r4 = "Seq (LazyPlus (Cls dot)) ?r5"
  let ?r3 = "Seq (chr CHR ''@'') ?r4"
  let ?r2 = "Seq (LazyPlus (Cls dot)) ?r3"
  let ?r1 = "Seq (str ''://'') ?r2"
  have "w \<in> lang (Seq ss_trojan_scheme ?r1)"
    using assms by (simp only: ss_trojan_re_def)
  from lang_SeqD [OF this] obtain sch w1
    where 1: "w = sch @ w1" "sch \<in> lang ss_trojan_scheme" "w1 \<in> lang ?r1" by blast
  from lang_SeqD [OF 1(3)] obtain x2 w2
    where 2: "w1 = x2 @ w2" "x2 \<in> lang (str ''://'')" "w2 \<in> lang ?r2" by blast
  from lang_SeqD [OF 2(3)] obtain cred w3
    where 3: "w2 = cred @ w3" "cred \<in> lang (LazyPlus (Cls dot))" "w3 \<in> lang ?r3" by blast
  from lang_SeqD [OF 3(3)] obtain x4 w4
    where 4: "w3 = x4 @ w4" "x4 \<in> lang (chr CHR ''@'')" "w4 \<in> lang ?r4" by blast
  from lang_SeqD [OF 4(3)] obtain host w5
    where 5: "w4 = host @ w5" "host \<in> lang (LazyPlus (Cls dot))" "w5 \<in> lang ?r5" by blast
  from lang_SeqD [OF 5(3)] obtain x6 w6
    where 6: "w5 = x6 @ w6" "x6 \<in> lang (chr CHR '':'')" "w6 \<in> lang ?r6" by blast
  from lang_SeqD [OF 6(3)] obtain port w7
    where 7: "w6 = port @ w7" "port \<in> lang port_re" "w7 \<in> lang suffix_re" by blast
  from lang_suffix_re [OF 7(3)] obtain q suf
    where 8: "w7 = q # suf" "query_or_fragment q" "suf \<noteq> []" "list_all non_space suf"
    by blast
  have x: "x2 = ''://''" "x4 = ''@''" "x6 = '':''"
    using 2(2) 4(2) 6(2) by (simp_all only: lang_str lang_chr singleton_iff)
  have "w = sch @ ''://'' @ cred @ ''@'' @ host @ '':'' @ port @ q # suf"
    unfolding 1(1) 2(1) 3(1) 4(1) 5(1) 6(1) 7(1) 8(1) x by simp
  moreover have "cred \<noteq> [] \<and> list_all dot cred"
    using lang_Plus_Cls [of cred dot] 3(2) by blast
  moreover have "host \<noteq> [] \<and> list_all dot host"
    using lang_Plus_Cls [of host dot] 5(2) by blast
  ultimately show ?thesis
    using 1(2) lang_port_re [OF 7(2)] 8(2-4) by blast
qed

lemma FindAll_Nil: "FindAll r s = [] \<longleftrightarrow> (\<forall>k. ms r (drop k s) = [])"
proof (induction s)
  case Nil
  show ?case by (subst FindAll.simps) (simp split: list.splits)
next
  case (Cons c cs)
  have "FindAll r (c # cs) = [] \<longleftrightarrow> ms r (c # cs) = [] \<and> FindAll r cs = []"
    by (subst FindAll.simps) (simp split: list.splits)
  also have "\<dots> \<longleftrightarrow> ms r (c # cs) = [] \<and> (\<forall>k. ms r (drop k cs) = [])"
    by (simp only: Cons.IH)
  also have "\<dots> \<longleftrightarrow> (\<forall>k. ms r (drop k (c # cs)) = [])"
  proof
    assume a: "ms r (c # cs) = [] \<and> (\<forall>k. ms r (drop k cs) = [])"
    show "\<forall>k. ms r (drop k (c # cs)) = []"
    proof
      fix k show "ms r (drop k (c # cs)) = []"
        using a by (cases k) simp_all
    qed
  next
    assume a: "\<forall>k. ms r (drop k (c # cs)) = []"
    have "ms r (c # cs) = []" using a [rule_format, of 0] by simp
    moreover have "ms r (drop k cs) = []" for k using a [rule_format, of "Suc k"] by simp
    ultimately show "ms r (c # cs) = [] \<and> (\<forall>k. ms r (drop k cs) = [])" by blast
  qed
  finally show ?case .
qed

lemma ss_trojan_needs_mark:
  assumes "CHR ''?'' \<notin> set s" and "CHR ''#'' \<notin> set s"
  shows "ms ss_trojan_re s = []"
proof (rule ccontr)
  assume "ms ss_trojan_re s \<noteq> []"
  then obtain t where "t \<in> set (ms ss_trojan_re s)"
    by (cases "ms ss_trojan_re s") auto
  from ms_sound [OF this] obtain w where w: "w \<in> lang ss_trojan_re" "s = w @ t" by blast
  from lang_ss_trojan_re [OF w(1)] obtain sch cred host port q suf
    where "w = sch @ ''://'' @ cred @ ''@'' @ host @ '':'' @ port @ q # suf"
      and "query_or_fragment q"
    by blast
  with w(2) have "q \<in> set s" "q = CHR ''?'' \<or> q = CHR ''#''"
    by (simp_all add: query_or_fragment_def)
  with assms show False by blast
qed

lemma star_g_last: "t \<in> set (star_g f n t)"
  by (cases n) simp_all

lemma star_l_first: "t \<in> set (star_l f n t)"
  by (cases n) simp_all

lemma star_g_step:
  "v \<in> set (f u) \<Longrightarrow> length v < length u \<Longrightarrow> t \<in> set (star_g f m v)
     \<Longrightarrow> t \<in> set (star_g f (Suc m) u)"
  by auto

lemma star_l_step:
  "v \<in> set (f u) \<Longrightarrow> length v < length u \<Longrightarrow> t \<in> set (star_l f m v)
     \<Longrightarrow> t \<in> set (star_l f (Suc m) u)"
  by auto

lemma star_g_complete:
  assumes f: "\<And>w t. w \<in> L \<Longrightarrow> t \<in> set (f (w @ t))"
  shows "set ws \<subseteq> L \<Longrightarrow> length (concat ws @ t) \<le> n \<Longrightarrow> t \<in> set (star_g f n (concat ws @ t))"
proof (induction ws arbitrary: n)
  case Nil
  then show ?case by (simp add: star_g_last)
next
  case (Cons w ws)
  show ?case
  proof (cases "w = []")
    case True
    with Cons show ?thesis by simp
  next
    case False
    let ?u = "concat ws @ t"
    from False Cons.prems(2) obtain m where n: "n = Suc m" and m: "length ?u \<le> m"
      by (cases n) (auto simp: neq_Nil_conv)
    have "?u \<in> set (f (w @ ?u))" using f Cons.prems(1) by simp
    moreover have "length ?u < length (w @ ?u)" using False by simp
    moreover have "t \<in> set (star_g f m ?u)" using Cons.IH [of m] Cons.prems(1) m by simp
    ultimately have "t \<in> set (star_g f (Suc m) (w @ ?u))"
      by (rule star_g_step)
    then show ?thesis using n by simp
  qed
qed

lemma star_l_complete:
  assumes f: "\<And>w t. w \<in> L \<Longrightarrow> t \<in> set (f (w @ t))"
  shows "set ws \<subseteq> L \<Longrightarrow> length (concat ws @ t) \<le> n \<Longrightarrow> t \<in> set (star_l f n (concat ws @ t))"
proof (induction ws arbitrary: n)
  case Nil
  then show ?case by (simp add: star_l_first)
next
  case (Cons w ws)
  show ?case
  proof (cases "w = []")
    case True
    with Cons show ?thesis by simp
  next
    case False
    let ?u = "concat ws @ t"
    from False Cons.prems(2) obtain m where n: "n = Suc m" and m: "length ?u \<le> m"
      by (cases n) (auto simp: neq_Nil_conv)
    have "?u \<in> set (f (w @ ?u))" using f Cons.prems(1) by simp
    moreover have "length ?u < length (w @ ?u)" using False by simp
    moreover have "t \<in> set (star_l f m ?u)" using Cons.IH [of m] Cons.prems(1) m by simp
    ultimately have "t \<in> set (star_l f (Suc m) (w @ ?u))"
      by (rule star_l_step)
    then show ?thesis using n by simp
  qed
qed

lemma ms_complete: "w \<in> lang r \<Longrightarrow> t \<in> set (ms r (w @ t))"
proof (induction r arbitrary: w t)
  case (Cls P)
  then show ?case by auto
next
  case (Seq a b)
  from Seq.prems obtain u v where uv: "w = u @ v" "u \<in> lang a" "v \<in> lang b" by auto
  have "v @ t \<in> set (ms a (u @ v @ t))" by (rule Seq.IH(1) [OF uv(2)])
  moreover have "t \<in> set (ms b (v @ t))" by (rule Seq.IH(2) [OF uv(3)])
  ultimately show ?case unfolding uv(1) by auto
next
  case (Alt a b)
  then show ?case by auto
next
  case (Opt a)
  then show ?case by auto
next
  case (Plus a)
  from Plus.prems obtain ws where ws: "w = concat ws" "ws \<noteq> []" "set ws \<subseteq> lang a" by auto
  then obtain w1 ws' where c: "ws = w1 # ws'" by (cases ws) auto
  let ?u = "concat ws' @ t"
  have s: "w @ t = w1 @ ?u" using ws(1) c by simp
  have "?u \<in> set (ms a (w1 @ ?u))" using Plus.IH ws(3) c by simp
  moreover have "t \<in> set (star_g (ms a) (length (w1 @ ?u)) ?u)"
    using star_g_complete [of "lang a" "ms a" ws' t "length (w1 @ ?u)"] Plus.IH ws(3) c by simp
  ultimately show ?case unfolding s by (simp del: append_assoc) blast
next
  case (LazyPlus a)
  from LazyPlus.prems obtain ws where ws: "w = concat ws" "ws \<noteq> []" "set ws \<subseteq> lang a" by auto
  then obtain w1 ws' where c: "ws = w1 # ws'" by (cases ws) auto
  let ?u = "concat ws' @ t"
  have s: "w @ t = w1 @ ?u" using ws(1) c by simp
  have "?u \<in> set (ms a (w1 @ ?u))" using LazyPlus.IH ws(3) c by simp
  moreover have "t \<in> set (star_l (ms a) (length (w1 @ ?u)) ?u)"
    using star_l_complete [of "lang a" "ms a" ws' t "length (w1 @ ?u)"] LazyPlus.IH ws(3) c by simp
  ultimately show ?case unfolding s by (simp del: append_assoc) blast
qed


lemma lang_SeqI: "u \<in> lang a \<Longrightarrow> v \<in> lang b \<Longrightarrow> u @ v \<in> lang (Seq a b)"
  by auto

lemma lang_Plus_ClsI:
  assumes "w \<noteq> []" and "list_all P w"
  shows "w \<in> lang (Plus (Cls P))" and "w \<in> lang (LazyPlus (Cls P))"
proof -
  let ?ws = "map (\<lambda>c. [c]) w"
  have "concat ?ws = w" by (induction w) simp_all
  moreover have "?ws \<noteq> []" using assms(1) by simp
  moreover have "set ?ws \<subseteq> lang (Cls P)"
    using assms(2) by (auto simp: list_all_iff)
  ultimately have "\<exists>ws. w = concat ws \<and> ws \<noteq> [] \<and> set ws \<subseteq> lang (Cls P)"
    by metis
  then show "w \<in> lang (Plus (Cls P))" and "w \<in> lang (LazyPlus (Cls P))"
    by (simp_all only: lang.simps mem_Collect_eq)
qed

lemma lang_Seq_Cls: "c # w \<in> lang (Seq (Cls P) b) \<longleftrightarrow> P c \<and> w \<in> lang b"
proof
  assume "c # w \<in> lang (Seq (Cls P) b)"
  from lang_SeqD [OF this] obtain u v
    where uv: "c # w = u @ v" "u \<in> lang (Cls P)" "v \<in> lang b" by blast
  from uv(2) obtain c' where c': "u = [c']" "P c'" by auto
  with uv(1) have "c = c'" "w = v" by simp_all
  with c'(2) uv(3) show "P c \<and> w \<in> lang b" by simp
next
  assume "P c \<and> w \<in> lang b"
  then have "[c] \<in> lang (Cls P)" "w \<in> lang b" by simp_all
  from lang_SeqI [OF this] show "c # w \<in> lang (Seq (Cls P) b)" by simp
qed

lemma lang_Opt: "w \<in> lang (Opt a) \<longleftrightarrow> w = [] \<or> w \<in> lang a"
  by simp

lemma lang_Cls_single: "[c] \<in> lang (Cls P) \<longleftrightarrow> P c"
  by simp

lemma lang_port_reI:
  assumes "2 \<le> length w" and "length w \<le> 5" and "list_all is_digit w"
  shows "w \<in> lang port_re"
proof -
  from assms(1) obtain a b r where w: "w = a # b # r"
    by (cases w; cases "tl w") auto
  let ?d = "Cls is_digit"
  have r: "r \<in> lang (Opt (Seq ?d (Opt (Seq ?d (Opt ?d)))))"
  proof (cases r)
    case Nil
    then show ?thesis by simp
  next
    case (Cons c r1)
    note c = this
    show ?thesis
    proof (cases r1)
      case Nil
      with c assms(3) w show ?thesis
        by (simp only: lang_Opt lang_Seq_Cls) simp
    next
      case (Cons d r2)
      note d = this
      show ?thesis
      proof (cases r2)
        case Nil
        with c d assms(3) w show ?thesis
          by (simp only: lang_Opt lang_Seq_Cls lang_Cls_single) simp
      next
        case (Cons e r3)
        with c d assms(2) w have "r3 = []" by simp
        with Cons c d assms(3) w show ?thesis
          by (simp only: lang_Opt lang_Seq_Cls lang_Cls_single) simp
      qed
    qed
  qed
  have "a # b # r \<in> lang (Seq ?d (Seq ?d (Opt (Seq ?d (Opt (Seq ?d (Opt ?d)))))))"
    using assms(3) w r by (simp only: lang_Seq_Cls) simp
  then show ?thesis by (simp only: w port_re_def Let_def)
qed

lemma ss_trojan_form_iff: "w \<in> lang ss_trojan_re \<longleftrightarrow> ss_trojan_form w"
proof
  assume "w \<in> lang ss_trojan_re"
  from lang_ss_trojan_re [OF this] show "ss_trojan_form w"
    unfolding ss_trojan_form_def query_or_fragment_def by blast
next
  assume "ss_trojan_form w"
  then obtain sch cred host port q suf
    where w: "w = sch @ ''://'' @ cred @ ''@'' @ host @ '':'' @ port @ q # suf"
      and f: "sch \<in> lang ss_trojan_scheme" "cred \<noteq> []" "list_all dot cred" "host \<noteq> []"
        "list_all dot host" "2 \<le> length port" "length port \<le> 5" "list_all is_digit port"
        "q = CHR ''?'' \<or> q = CHR ''#''" "suf \<noteq> []" "list_all non_space suf"
    unfolding ss_trojan_form_def by blast
  have qf: "query_or_fragment q" using f(9) by (simp add: query_or_fragment_def)
  have 7: "q # suf \<in> lang suffix_re"
    unfolding suffix_re_def lang_Seq_Cls
    by (intro conjI qf lang_Plus_ClsI(1) [OF f(10,11)])
  have c1: "'':'' \<in> lang (chr CHR '':'')" and c2: "''@'' \<in> lang (chr CHR ''@'')"
    and c3: "''://'' \<in> lang (str ''://'')"
    by (simp_all only: lang_chr lang_str singletonI)
  note 6 = lang_SeqI [OF lang_port_reI [OF f(6,7,8)] 7]
  note 5 = lang_SeqI [OF c1 6]
  note 4 = lang_SeqI [OF lang_Plus_ClsI(2) [OF f(4,5)] 5]
  note 3 = lang_SeqI [OF c2 4]
  note 2 = lang_SeqI [OF lang_Plus_ClsI(2) [OF f(2,3)] 3]
  note 1 = lang_SeqI [OF c3 2]
  have "sch @ ''://'' @ cred @ ''@'' @ host @ '':'' @ port @ q # suf \<in> lang ss_trojan_re"
    unfolding ss_trojan_re_def by (rule lang_SeqI [OF f(1) 1])
  then show "w \<in> lang ss_trojan_re" by (simp only: w)
qed

lemma match_somewhere:
  "(\<exists>k. ms r (drop k s) \<noteq> []) \<longleftrightarrow> (\<exists>u w v. s = u @ w @ v \<and> w \<in> lang r)"
proof
  assume "\<exists>k. ms r (drop k s) \<noteq> []"
  then obtain k t where "t \<in> set (ms r (drop k s))"
    by (metis last_in_set)
  from ms_sound [OF this] obtain w where w: "w \<in> lang r" "drop k s = w @ t" by blast
  have "s = take k s @ w @ t" using w(2) by (metis append_take_drop_id)
  with w(1) show "\<exists>u w v. s = u @ w @ v \<and> w \<in> lang r" by blast
next
  assume "\<exists>u w v. s = u @ w @ v \<and> w \<in> lang r"
  then obtain u w v where s: "s = u @ w @ v" and w: "w \<in> lang r" by blast
  have "drop (length u) s = w @ v" using s by simp
  with ms_complete [OF w, of v] have "ms r (drop (length u) s) \<noteq> []" by auto
  then show "\<exists>k. ms r (drop k s) \<noteq> []" ..
qed

lemma FindAll_sound: "l \<in> set (FindAll r s) \<Longrightarrow> l \<in> lang r"
proof (induction r s rule: FindAll.induct)
  case (1 r s)
  show ?case
  proof (cases "ms r s")
    case Nil
    show ?thesis
    proof (cases s)
      case Nil
      with \<open>ms r s = []\<close> "1.prems" show ?thesis by (subst (asm) FindAll.simps) simp
    next
      case (Cons c cs)
      with \<open>ms r s = []\<close> "1.prems" have "l \<in> set (FindAll r cs)"
        by (subst (asm) FindAll.simps) simp
      with "1.IH"(1) [OF \<open>ms r s = []\<close> Cons] show ?thesis by blast
    qed
  next
    case (Cons rest more)
    then have "rest \<in> set (ms r s)" by simp
    from ms_sound [OF this] obtain w where w: "w \<in> lang r" "s = w @ rest" by blast
    have tk: "take (length s - length rest) s = w" using w(2) by simp
    show ?thesis
    proof (cases "length rest < length s")
      case True
      with Cons "1.prems" have "l = w \<or> l \<in> set (FindAll r rest)"
        by (subst (asm) FindAll.simps) (simp add: tk)
      with w(1) "1.IH"(2) [OF Cons True] show ?thesis by blast
    next
      case False
      with w(2) have e: "w = []" by simp
      show ?thesis
      proof (cases s)
        case Nil
        with Cons False "1.prems" have "l = []" by (subst (asm) FindAll.simps) simp
        with e w(1) show ?thesis by simp
      next
        case (Cons c cs)
        with \<open>ms r s = rest # more\<close> False "1.prems" have "l = [] \<or> l \<in> set (FindAll r cs)"
          by (subst (asm) FindAll.simps) simp
        with e w(1) "1.IH"(3) [OF \<open>ms r s = rest # more\<close> False Cons] show ?thesis by blast
      qed
    qed
  qed
qed


text \<open>
  C9 (as amended). What the second family of the link pattern matches is exactly a scheme,
  \<open>://\<close>, a credential, \<open>@\<close>, a host, \<open>:\<close>, a port of 2 to 5 digits, then \<open>?\<close> or
  \<open>#\<close> and at least one more character that is not white space, where credential and host
  are any non-empty texts without a line feed. For a text that is not a subscription URL,
  \<open>parseLinks\<close> returns the invalid-data error exactly when no part of the text is a
  descriptor of either family; otherwise it returns links, each of them such a descriptor.
\<close>

theorem parseLinks_invalid_iff:
  assumes "\<not> MatchString url_re message"
  shows "(parseLinks fetch message = Some (Inl ErrInvalidData) \<longleftrightarrow> \<not> holds_descriptor message)
       \<and> (\<forall>links. parseLinks fetch message = Some (Inr links) \<longrightarrow>
             links \<noteq> [] \<and> (\<forall>l\<in>set links. l \<in> lang vmess_ssr_re \<or> ss_trojan_form l))
       \<and> (holds_descriptor message \<longrightarrow> (\<exists>links. parseLinks fetch message = Some (Inr links)))
       \<and> (\<forall>w. w \<in> lang ss_trojan_re \<longleftrightarrow> ss_trojan_form w)"
proof -
  have lang_link: "w \<in> lang link_re \<longleftrightarrow> w \<in> lang vmess_ssr_re \<or> ss_trojan_form w" for w
    by (simp add: link_re_def ss_trojan_form_iff del: lang.simps(2))
  have res: "parseLinks fetch message
      = (if FindAll link_re message = [] then Some (Inl ErrInvalidData)
         else Some (Inr (FindAll link_re message)))"
    using assms by (subst parseLinks.simps) (simp add: Let_def)
  have "FindAll link_re message = [] \<longleftrightarrow> \<not> (\<exists>k. ms link_re (drop k message) \<noteq> [])"
    unfolding FindAll_Nil by blast
  also have "\<dots> \<longleftrightarrow> \<not> (\<exists>u w v. message = u @ w @ v \<and> w \<in> lang link_re)"
    unfolding match_somewhere ..
  also have "\<dots> \<longleftrightarrow> \<not> holds_descriptor message"
    unfolding holds_descriptor_def lang_link ..
  finally have nil: "FindAll link_re message = [] \<longleftrightarrow> \<not> holds_descriptor message" .
  have one: "parseLinks fetch message = Some (Inl ErrInvalidData) \<longleftrightarrow> \<not> holds_descriptor message"
    unfolding res nil [symmetric] by simp
  have two: "links \<noteq> [] \<and> (\<forall>l\<in>set links. l \<in> lang vmess_ssr_re \<or> ss_trojan_form l)"
    if "parseLinks fetch message = Some (Inr links)" for links
  proof -
    from that have l: "links = FindAll link_re message" "links \<noteq> []"
      unfolding res by (auto split: if_splits)
    have "l \<in> lang vmess_ssr_re \<or> ss_trojan_form l" if "l \<in> set links" for l
      using FindAll_sound [of l link_re message] that l(1) lang_link by blast
    with l(2) show ?thesis by blast
  qed
  have three: "\<exists>links. parseLinks fetch message = Some (Inr links)" if "holds_descriptor message"
    using that nil unfolding res by simp
  from one two three ss_trojan_form_iff show ?thesis by blast
qed

theorem parseLinks_invalid_iff_witness:
  "parseLinks (\<lambda>_. Inl ErrFetch) ''ss://user@host:8388#x'' \<noteq> Some (Inl ErrInvalidData)"
proof -
  have a: "\<not> MatchString url_re ''ss://user@host:8388#x''"
    by (simp add: pattern_defs)
  have "[CHR ''s''] \<in> lang (ci CHR ''s'')"
    by (simp add: ci_def Let_def to_upper_def is_lower_def in_range_def)
  from lang_SeqI [OF this this] have sch: "''ss'' \<in> lang ss_trojan_scheme"
    by (simp add: ss_trojan_scheme_def del: lang.simps(2))
  have "ss_trojan_form ''ss://user@host:8388#x''"
    unfolding ss_trojan_form_def
    by (intro exI [of _ "''ss''"] exI [of _ "''user''"] exI [of _ "''host''"]
        exI [of _ "''8388''"] exI [of _ "CHR ''#''"] exI [of _ "''x''"])
      (simp add: sch dot_def is_digit_def non_space_def)
  then have "holds_descriptor ''ss://user@host:8388#x''"
    unfolding holds_descriptor_def
    by (intro exI [of _ "[]"] exI [of _ "''ss://user@host:8388#x''"]) simp
  with parseLinks_invalid_iff [OF a, of "\<lambda>_. Inl ErrFetch"] show ?thesis by blast
qed

text \<open>Texts with an ss link that lacks the suffix, and no other descriptor, are rejected.\<close>

lemma parseLinks_rejected_examples:
  "parseLinks fetch ''ss://user@host:8388'' = Some (Inl ErrInvalidData)"
  "parseLinks fetch ''ss://user@host:8388#'' = Some (Inl ErrInvalidData)"
  "parseLinks fetch ''#1 ss://user@host:8388'' = Some (Inl ErrInvalidData)"
proof -
  have u: "\<not> MatchString url_re ''ss://user@host:8388''"
    "\<not> MatchString url_re ''ss://user@host:8388#''"
    "\<not> MatchString url_re ''#1 ss://user@host:8388''"
    by (simp_all add: pattern_defs)
  have f: "FindAll link_re ''ss://user@host:8388'' = []"
    "FindAll link_re ''ss://user@host:8388#'' = []"
    "FindAll link_re ''#1 ss://user@host:8388'' = []"
    by code_simp+
  show "parseLinks fetch ''ss://user@host:8388'' = Some (Inl ErrInvalidData)"
    "parseLinks fetch ''ss://user@host:8388#'' = Some (Inl ErrInvalidData)"
    "parseLinks fetch ''#1 ss://user@host:8388'' = Some (Inl ErrInvalidData)"
    by (subst parseLinks.simps, simp only: u f Let_def, simp)+
qed

text \<open>
  C9 as stated fails: the ss link of this text has no suffix after its port, yet the host
  may run on over white space to a later \<open>:\<close>, digits and \<open>#x\<close>, and a link is returned.
\<close>

theorem parseLinks_host_spans_text:
  "parseLinks (\<lambda>_. Inl ErrFetch) ''ss://user@host:8388 and at 10:30#x''
     = Some (Inr [''ss://user@host:8388 and at 10:30#x''])"
proof -
  have u: "\<not> MatchString url_re ''ss://user@host:8388 and at 10:30#x''"
    by (simp add: pattern_defs)
  have f: "FindAll link_re ''ss://user@host:8388 and at 10:30#x''
             = [''ss://user@host:8388 and at 10:30#x'']"
    by code_simp
  show ?thesis
    by (subst parseLinks.simps, simp only: u f Let_def, simp)
qed

end
